theory Spec2Isabelle
  imports Complex_Main "HOL-Library.Sublist" "HOL-Library.Code_Target_Nat"
begin

section \<open>JavaScript strings\<close>

text \<open>
  A JavaScript string is a sequence of UTF-16 code units. The regular expressions of
  \<^verbatim>\<open>server.js\<close> carry no \<^verbatim>\<open>u\<close> flag, so they work on code units too. A code unit is
  modelled by its number; \<open>js\<close> embeds an ASCII literal. The three non-ASCII characters of
  the reference markers are single code units: U+3010, U+2020 and U+3011.
\<close>

type_synonym jschar = nat
type_synonym jsstring = "jschar list"

definition js :: "string \<Rightarrow> jsstring" where
  "js s = map of_char s"

definition lbr :: jschar where
  "lbr = 12304"

definition dagger :: jschar where
  "dagger = 8224"

definition rbr :: jschar where
  "rbr = 12305"

text \<open>
  The class \<^verbatim>\<open>\s\<close> and the characters removed by \<^verbatim>\<open>trim()\<close> are the same set: the
  white space and line terminator code units of ECMAScript.
\<close>

definition isSpace :: "jschar \<Rightarrow> bool" where
  "isSpace c = (c \<in> set [9, 10, 11, 12, 13, 32, 160, 5760, 8232, 8233, 8239, 8287, 12288, 65279]
     \<or> (8192 \<le> c \<and> c \<le> 8202))"

definition isDigit :: "jschar \<Rightarrow> bool" where
  "isDigit c = (48 \<le> c \<and> c \<le> 57)"

definition trim :: "jsstring \<Rightarrow> jsstring" where
  "trim s = rev (dropWhile isSpace (rev (dropWhile isSpace s)))"

text \<open>
  Under the \<^verbatim>\<open>i\<close> flag (without \<^verbatim>\<open>u\<close>) two code units match when their canonical
  forms agree; the canonical form is the upper case, except that a non-ASCII unit is never
  mapped to an ASCII one. Every pattern character of the program is ASCII, so an input unit
  matches a pattern letter exactly when it is that letter in lower or upper case, and it
  matches any other pattern character exactly when it is equal to it. \<open>canon\<close> is the
  canonical form restricted to what these comparisons need.
\<close>

definition canon :: "jschar \<Rightarrow> jschar" where
  "canon c = (if 97 \<le> c \<and> c \<le> 122 then c - 32 else c)"

text \<open>Decimal rendering of the numbers that the program interpolates into strings.\<close>

fun showNat :: "nat \<Rightarrow> jsstring" where
  "showNat n = (if n < 10 then [48 + n] else showNat (n div 10) @ [48 + n mod 10])"

definition showInt :: "int \<Rightarrow> jsstring" where
  "showInt i = (if i < 0 then 45 # showNat (nat (- i)) else showNat (nat i))"

fun joinWith :: "jsstring \<Rightarrow> jsstring list \<Rightarrow> jsstring" where
  "joinWith sep [] = []"
| "joinWith sep [x] = x"
| "joinWith sep (x # y # ys) = x @ sep @ joinWith sep (y # ys)"

text \<open>
  \<^verbatim>\<open>Array.prototype.indexOf\<close>: the position of the first element equal to \<open>x\<close>, or
  \<open>-1\<close>.
\<close>

fun indexOf :: "'a list \<Rightarrow> 'a \<Rightarrow> int" where
  "indexOf [] x = - 1"
| "indexOf (y # ys) x =
     (if y = x then 0 else (let i = indexOf ys x in if i < 0 then - 1 else i + 1))"

section \<open>Global replacement\<close>

text \<open>
  \<^verbatim>\<open>text.replace(/re/g, r)\<close> scans the text from the left. A matcher gives, for the rest of
  the text at the current position, the length of the match of the expression there, if
  any (no expression of the program has an anchor, a word boundary or a look-around, so the
  match depends on the rest of the text only). A match is cut out as a \<open>Hit\<close> and the scan
  goes on behind it; where nothing matches, the code unit is kept and the scan moves one
  unit on. After an empty match the scan also moves one unit on, as the language prescribes.
  The matches are all found first, and the replacement function is then called on them
  from left to right.
\<close>

datatype seg = Lit jschar | Hit jsstring

fun scan :: "(jsstring \<Rightarrow> nat option) \<Rightarrow> jsstring \<Rightarrow> seg list" where
  "scan m [] = (case m [] of None \<Rightarrow> [] | Some _ \<Rightarrow> [Hit []])"
| "scan m (c # cs) =
     (case m (c # cs) of
        None \<Rightarrow> Lit c # scan m cs
      | Some 0 \<Rightarrow> Hit [] # Lit c # scan m cs
      | Some (Suc n) \<Rightarrow> Hit (c # take n cs) # scan m (drop n cs))"

fun substitute :: "(jsstring \<Rightarrow> jsstring) \<Rightarrow> seg \<Rightarrow> jsstring" where
  "substitute r (Lit c) = [c]"
| "substitute r (Hit t) = r t"

definition replaceAll :: "(jsstring \<Rightarrow> nat option) \<Rightarrow> (jsstring \<Rightarrow> jsstring) \<Rightarrow> jsstring \<Rightarrow> jsstring" where
  "replaceAll m r text = concat (map (substitute r) (scan m text))"

text \<open>The texts of the matches, in order: what a loop over \<^verbatim>\<open>re.exec\<close> visits.\<close>

fun hits :: "seg list \<Rightarrow> jsstring list" where
  "hits [] = []"
| "hits (Lit c # segs) = hits segs"
| "hits (Hit t # segs) = t # hits segs"

text \<open>
  Greedy repetition of a matcher that, where it matches, matches in one way only: the
  total length of the longest sequence of consecutive matches. An empty match ends the
  repetition.
\<close>

fun repeatMatch :: "(jsstring \<Rightarrow> nat option) \<Rightarrow> jsstring \<Rightarrow> nat" where
  "repeatMatch m [] = 0"
| "repeatMatch m (c # cs) =
     (case m (c # cs) of
        None \<Rightarrow> 0
      | Some 0 \<Rightarrow> 0
      | Some (Suc n) \<Rightarrow> Suc n + repeatMatch m (drop n cs))"

text \<open>A literal phrase, compared case-insensitively when the expression has the \<^verbatim>\<open>i\<close> flag.\<close>

definition matchPhrase :: "jsstring \<Rightarrow> jsstring \<Rightarrow> nat option" where
  "matchPhrase p s =
     (if length p \<le> length s \<and> map canon (take (length p) s) = map canon p
      then Some (length p) else None)"

section \<open>The expressions of sanitizeAssistantResponse\<close>

text \<open>
  \<^verbatim>\<open>/#+\s?/g\<close>: all the \<^verbatim>\<open>#\<close> at the position, at least one, and one white space unit
  behind them when there is one.
\<close>

definition matchHashes :: "jsstring \<Rightarrow> nat option" where
  "matchHashes s =
     (let n = length (takeWhile (\<lambda>c. c = 35) s) in
      if n = 0 then None
      else (case drop n s of
              [] \<Rightarrow> Some n
            | c # _ \<Rightarrow> if isSpace c then Some (n + 1) else Some n))"

text \<open>\<^verbatim>\<open>/\*\*/g\<close>\<close>

definition matchStars :: "jsstring \<Rightarrow> nat option" where
  "matchStars s = (if prefix [42, 42] s then Some 2 else None)"

text \<open>
  \<^verbatim>\<open>/\[[^\]]*\]/g\<close>: an opening bracket, then everything up to the first closing bracket,
  which has to exist.
\<close>

definition matchBracket :: "jsstring \<Rightarrow> nat option" where
  "matchBracket s =
     (case s of
        [] \<Rightarrow> None
      | c # r \<Rightarrow>
          if c \<noteq> 91 then None
          else (let body = takeWhile (\<lambda>x. x \<noteq> 93) r in
                if length body < length r then Some (length body + 2) else None))"

definition strong :: "jsstring \<Rightarrow> jsstring" where
  "strong t = js ''<strong>'' @ t @ js ''</strong>''"

definition boldHeading :: "string \<Rightarrow> jsstring \<Rightarrow> jsstring" where
  "boldHeading phrase text = replaceAll (matchPhrase (js phrase)) strong text"

section \<open>Reference lookup\<close>

text \<open>
  \<^verbatim>\<open>referenceDetailsMap\<close> is an object literal. Reading \<^verbatim>\<open>referenceDetailsMap[refCode]\<close>
  finds the own properties first and then the properties that every object literal
  inherits from \<^verbatim>\<open>Object.prototype\<close>; those are functions (and, for \<^verbatim>\<open>__proto__\<close>, the
  prototype object itself), each a distinct object, named here by its property name. The
  array \<^verbatim>\<open>collectedReferences\<close> holds whatever the lookup gave.
\<close>

datatype refval = RefText jsstring | Inherited jsstring

definition referenceDetailsMap :: "(jsstring \<times> jsstring) list" where
  "referenceDetailsMap =
    [(js ''4:8'', js ''Page 12, Section 4.8''),
     (js ''4:14'', js ''Page 18, Section 2''),
     (js ''4:19'', js ''Page 20, Appendix B''),
     (js ''4:4'', js ''Page 7, Section 1.3''),
     (js ''4:7'', js ''Page 10, Section 2.1''),
     (js ''4:13'', js ''Page 16, Section 3.3''),
     (js ''4:20'', js ''Page 22, Nanomaterials Guidance''),
     (js ''4:21'', js ''Page 24, GMP Guidelines''),
     (js ''4:5'', js ''Page 8, Contact Details'')]"

definition objectPrototypeKeys :: "jsstring list" where
  "objectPrototypeKeys =
    [js ''constructor'', js ''hasOwnProperty'', js ''isPrototypeOf'',
     js ''propertyIsEnumerable'', js ''toLocaleString'', js ''toString'', js ''valueOf'',
     js ''__proto__'', js ''__defineGetter__'', js ''__defineSetter__'',
     js ''__lookupGetter__'', js ''__lookupSetter__'']"

definition getProperty :: "jsstring \<Rightarrow> refval option" where
  "getProperty k =
     (case map_of referenceDetailsMap k of
        Some v \<Rightarrow> Some (RefText v)
      | None \<Rightarrow> if k \<in> set objectPrototypeKeys then Some (Inherited k) else None)"

fun truthy :: "refval \<Rightarrow> bool" where
  "truthy (RefText s) = (s \<noteq> [])"
| "truthy (Inherited k) = True"

text \<open>\<^verbatim>\<open>referenceDetailsMap[refCode] || "FDA Guidance"\<close>\<close>

definition resolve :: "jsstring \<Rightarrow> refval" where
  "resolve refCode =
     (case getProperty refCode of
        None \<Rightarrow> RefText (js ''FDA Guidance'')
      | Some v \<Rightarrow> if truthy v then v else RefText (js ''FDA Guidance''))"

section \<open>unifyConsecutiveReferences\<close>

text \<open>
  One marker, \<^verbatim>\<open>/\<lbrakk>[^\<dagger>]+\<dagger>source\<rbrakk>/\<close> with the three special characters written
  \<open>lbr\<close>, \<open>dagger\<close> and \<open>rbr\<close>: the opening bracket, then everything up to the first dagger,
  at least one unit, then the dagger, \<^verbatim>\<open>source\<close> and the closing bracket. The code cannot
  end before the first dagger, since a dagger has to follow it, nor go past it.
\<close>

definition markerTail :: jsstring where
  "markerTail = dagger # js ''source'' @ [rbr]"

definition matchMarker :: "jsstring \<Rightarrow> nat option" where
  "matchMarker s =
     (case s of
        [] \<Rightarrow> None
      | c # r \<Rightarrow>
          if c \<noteq> lbr then None
          else (let code = takeWhile (\<lambda>x. x \<noteq> dagger) r in
                if code \<noteq> [] \<and> prefix markerTail (drop (length code) r)
                then Some (1 + length code + length markerTail) else None))"

text \<open>The outer expression: one or more markers in a row.\<close>

definition matchMarkers :: "jsstring \<Rightarrow> nat option" where
  "matchMarkers s = (case repeatMatch matchMarker s of 0 \<Rightarrow> None | Suc n \<Rightarrow> Some (Suc n))"

text \<open>The capture group of a marker: what stands between the bracket and the dagger.\<close>

definition refCodeOf :: "jsstring \<Rightarrow> jsstring" where
  "refCodeOf t = takeWhile (\<lambda>x. x \<noteq> dagger) (tl t)"

definition execAll :: "jsstring \<Rightarrow> jsstring list" where
  "execAll fullMatch = map refCodeOf (hits (scan matchMarker fullMatch))"

text \<open>The body of the \<^verbatim>\<open>while\<close> loop, on the pair of the global array and \<^verbatim>\<open>refIndices\<close>.\<close>

definition refStep :: "refval list \<times> int list \<Rightarrow> jsstring \<Rightarrow> refval list \<times> int list" where
  "refStep st refCode =
     (case st of (collected, refIndices) \<Rightarrow>
        let detail = resolve refCode;
            collected' = (if detail \<in> set collected then collected else collected @ [detail]);
            index = indexOf collected' detail + 1;
            refIndices' = (if index \<in> set refIndices then refIndices else refIndices @ [index])
        in (collected', refIndices'))"

definition supBlock :: "int list \<Rightarrow> jsstring" where
  "supBlock refIndices =
     (if length refIndices = 1
      then js ''<sup>['' @ showInt (hd refIndices) @ js '']</sup>''
      else js ''<sup>['' @ joinWith (js '','') (map showInt refIndices) @ js '']</sup>'')"

definition replacer :: "jsstring \<Rightarrow> refval list \<Rightarrow> jsstring \<times> refval list" where
  "replacer fullMatch collected =
     (case foldl refStep (collected, []) (execAll fullMatch) of
        (collected', refIndices) \<Rightarrow> (supBlock (sort refIndices), collected'))"

fun unifySegs :: "seg list \<Rightarrow> refval list \<Rightarrow> jsstring \<times> refval list" where
  "unifySegs [] collected = ([], collected)"
| "unifySegs (Lit c # segs) collected =
     (case unifySegs segs collected of (out, collected') \<Rightarrow> (c # out, collected'))"
| "unifySegs (Hit t # segs) collected =
     (case replacer t collected of
        (block, collected1) \<Rightarrow>
          (case unifySegs segs collected1 of (out, collected2) \<Rightarrow> (block @ out, collected2)))"

definition unifyConsecutiveReferences :: "jsstring \<Rightarrow> refval list \<Rightarrow> jsstring \<times> refval list" where
  "unifyConsecutiveReferences text collected = unifySegs (scan matchMarkers text) collected"

section \<open>linkReferences\<close>

text \<open>
  \<^verbatim>\<open>/((?:Refer to|See|For)[^-]+ - Page \d+(?:,\s*Section [^)\n]+)?)/gi\<close>.
  The three keywords begin with different letters, so at most one of them matches at a
  position. \<^verbatim>\<open>[^-]+\<close> cannot go past the first hyphen, and the hyphen of
  \<^verbatim>\<open>" - Page "\<close> has to stand one unit behind its end, so it ends one unit before the first
  hyphen, on a space that the literal takes. The digits are taken greedily; the optional
  group behind them is tried once and skipped when it fails, and nothing follows it.
\<close>

definition matchKeyword :: "jsstring \<Rightarrow> nat option" where
  "matchKeyword s =
     (case matchPhrase (js ''Refer to'') s of
        Some n \<Rightarrow> Some n
      | None \<Rightarrow>
          (case matchPhrase (js ''See'') s of
             Some n \<Rightarrow> Some n
           | None \<Rightarrow> matchPhrase (js ''For'') s))"

text \<open>\<^verbatim>\<open>(?:,\s*Section [^)\n]+)\<close>\<close>

definition matchSection :: "jsstring \<Rightarrow> nat option" where
  "matchSection s =
     (case s of
        [] \<Rightarrow> None
      | c # r \<Rightarrow>
          if c \<noteq> 44 then None
          else (let w = takeWhile isSpace r; r1 = drop (length w) r in
                case matchPhrase (js ''Section '') r1 of
                  None \<Rightarrow> None
                | Some p \<Rightarrow>
                    (let b = takeWhile (\<lambda>x. x \<noteq> 41 \<and> x \<noteq> 10) (drop p r1) in
                     if b = [] then None else Some (1 + length w + p + length b))))"

definition matchLink :: "jsstring \<Rightarrow> nat option" where
  "matchLink s =
     (case matchKeyword s of
        None \<Rightarrow> None
      | Some k \<Rightarrow>
          (let r = drop k s; a = takeWhile (\<lambda>x. x \<noteq> 45) r in
           if length a < 2 then None
           else (let r1 = drop (length a - 1) r in
                 case matchPhrase (js '' - Page '') r1 of
                   None \<Rightarrow> None
                 | Some p \<Rightarrow>
                     (let r2 = drop p r1; d = takeWhile isDigit r2 in
                      if d = [] then None
                      else (let base = k + (length a - 1) + p + length d in
                            case matchSection (drop (length d) r2) of
                              None \<Rightarrow> Some base
                            | Some q \<Rightarrow> Some (base + q))))))"

text \<open>The replacement template, with \<^verbatim>\<open>COLORS.primary\<close> and the match (\<^verbatim>\<open>$1\<close>) put in.\<close>

definition COLORS_primary :: jsstring where
  "COLORS_primary = js ''#1B74BB''"

definition anchor :: "jsstring \<Rightarrow> jsstring" where
  "anchor t =
     js ''<a href='' @ [34]
     @ js ''https://drive.google.com/file/d/1OGt3QP7K94-P6sJFO61NodgHknDiHsXa/edit'' @ [34, 10]
     @ js ''        target='' @ [34] @ js ''_blank'' @ [34, 10]
     @ js ''        style='' @ [34] @ js ''text-decoration: none; color: '' @ COLORS_primary
     @ js '';'' @ [34] @ js ''>'' @ [10]
     @ js ''      '' @ t @ [10]
     @ js ''    </a>''"

definition linkReferences :: "jsstring \<Rightarrow> jsstring" where
  "linkReferences text = replaceAll matchLink anchor text"

section \<open>sanitizeAssistantResponse\<close>

text \<open>
  The text before the references are unified: headings and asterisks removed, bracketed
  content removed, the five headings put in bold.
\<close>

definition stripMarkdown :: "jsstring \<Rightarrow> jsstring" where
  "stripMarkdown text =
     replaceAll matchBracket (\<lambda>_. [])
       (replaceAll matchStars (\<lambda>_. [])
          (replaceAll matchHashes (\<lambda>_. []) text))"

definition boldHeadings :: "jsstring \<Rightarrow> jsstring" where
  "boldHeadings text =
     boldHeading ''Additional Notes''
       (boldHeading ''Confidence Score''
          (boldHeading ''Document Section/Page''
             (boldHeading ''Extracted Insight''
                (boldHeading ''Question Asked'' text))))"

text \<open>
  The function reads nothing of the global array: it resets it first. The model takes the
  array as it stood and returns the text together with the array as it stands afterwards.
\<close>

definition sanitizeAssistantResponse :: "jsstring \<Rightarrow> refval list \<Rightarrow> jsstring \<times> refval list" where
  "sanitizeAssistantResponse text collectedReferences =
     (case unifyConsecutiveReferences (boldHeadings (stripMarkdown text)) [] of
        (unified, collected) \<Rightarrow> (trim (linkReferences unified), collected))"

section \<open>JavaScript values and the network\<close>

text \<open>
  The values that \<^verbatim>\<open>response.json()\<close> gives, and \<^verbatim>\<open>undefined\<close>. An object is the list of
  its own properties. A number is kept as a rational; the program only tests numbers for
  being zero and turns them into text.
\<close>

datatype jsval =
    Undefined
  | Null
  | Bool bool
  | Num rat
  | Str jsstring
  | Arr "jsval list"
  | Obj "(jsstring \<times> jsval) list"

datatype js_error = JsError (message: jsstring)

fun toBoolean :: "jsval \<Rightarrow> bool" where
  "toBoolean Undefined = False"
| "toBoolean Null = False"
| "toBoolean (Bool b) = b"
| "toBoolean (Num r) = (r \<noteq> 0)"
| "toBoolean (Str s) = (s \<noteq> [])"
| "toBoolean (Arr xs) = True"
| "toBoolean (Obj kvs) = True"

text \<open>
  What the program needs of the language runtime and cannot be read off the source: the
  text of an object, array or number inside a template literal (which can throw for an
  object), \<^verbatim>\<open>JSON.stringify\<close>, and the message of the TypeError raised by reading a
  property of \<^verbatim>\<open>null\<close> or \<^verbatim>\<open>undefined\<close>.
\<close>

record runtime =
  objectToString :: "jsval \<Rightarrow> js_error + jsstring"
  stringify :: "jsval \<Rightarrow> jsstring"
  nullReadMessage :: "jsval \<Rightarrow> jsstring \<Rightarrow> jsstring"

text \<open>A value inside a template literal.\<close>

definition toStr :: "runtime \<Rightarrow> jsval \<Rightarrow> js_error + jsstring" where
  "toStr rt v =
     (case v of
        Undefined \<Rightarrow> Inr (js ''undefined'')
      | Null \<Rightarrow> Inr (js ''null'')
      | Bool b \<Rightarrow> Inr (if b then js ''true'' else js ''false'')
      | Str s \<Rightarrow> Inr s
      | _ \<Rightarrow> objectToString rt v)"

text \<open>
  Reading a property. None of the names that the program reads from a response
  (\<^verbatim>\<open>id\<close>, \<^verbatim>\<open>status\<close>, \<^verbatim>\<open>data\<close>, \<^verbatim>\<open>role\<close>, \<^verbatim>\<open>content\<close>, \<^verbatim>\<open>text\<close>, \<^verbatim>\<open>value\<close>) is inherited
  from a prototype, so a value other than an object has none of them.
\<close>

definition getProp :: "runtime \<Rightarrow> jsval \<Rightarrow> jsstring \<Rightarrow> js_error + jsval" where
  "getProp rt v p =
     (case v of
        Undefined \<Rightarrow> Inl (JsError (nullReadMessage rt v p))
      | Null \<Rightarrow> Inl (JsError (nullReadMessage rt v p))
      | Obj kvs \<Rightarrow> (case map_of kvs p of None \<Rightarrow> Inr Undefined | Some x \<Rightarrow> Inr x)
      | _ \<Rightarrow> Inr Undefined)"

text \<open>\<^verbatim>\<open>v?.p\<close>\<close>

definition getPropOpt :: "runtime \<Rightarrow> jsval \<Rightarrow> jsstring \<Rightarrow> js_error + jsval" where
  "getPropOpt rt v p = (if v = Undefined \<or> v = Null then Inr Undefined else getProp rt v p)"

text \<open>\<^verbatim>\<open>v[0]\<close>: the first element of an array, the first unit of a string.\<close>

definition getFirst :: "runtime \<Rightarrow> jsval \<Rightarrow> js_error + jsval" where
  "getFirst rt v =
     (case v of
        Str s \<Rightarrow> (case s of [] \<Rightarrow> Inr Undefined | c # _ \<Rightarrow> Inr (Str [c]))
      | Arr xs \<Rightarrow> (case xs of [] \<Rightarrow> Inr Undefined | x # _ \<Rightarrow> Inr x)
      | _ \<Rightarrow> getProp rt v (js ''0''))"

text \<open>
  A call of \<^verbatim>\<open>fetch\<close> followed by \<^verbatim>\<open>response.json()\<close>: the call is rejected, or it gives
  a response with a status code whose body parses or fails to parse. The network is the
  sequence of the answers to the calls of one query, in the order of the calls.
\<close>

datatype fetch_result = Rejected js_error | Response nat "js_error + jsval"

type_synonym network = "nat \<Rightarrow> fetch_result"

definition ok :: "nat \<Rightarrow> bool" where
  "ok status = (200 \<le> status \<and> status \<le> 299)"

definition fetchJson :: "network \<Rightarrow> nat \<Rightarrow> js_error + nat \<times> jsval" where
  "fetchJson net i =
     (case net i of
        Rejected e \<Rightarrow> Inl e
      | Response status body \<Rightarrow> (case body of Inl e \<Rightarrow> Inl e | Inr v \<Rightarrow> Inr (status, v)))"

text \<open>
  What a query does that can be seen from outside: its calls, without the headers, which
  are the same in every call, and its waits, with the delay in milliseconds.
\<close>

record request =
  httpMethod :: jsstring
  url :: jsstring
  body :: "jsstring option"

datatype event = Fetch request | Sleep nat

datatype outcome = Returned jsval | Thrown js_error

section \<open>createThreadWithMessage\<close>

definition baseUrl :: jsstring where
  "baseUrl = js ''https://api.openai.com/v1/''"

definition assistantId :: jsstring where
  "assistantId = js ''######''"

definition createThreadRequest :: "runtime \<Rightarrow> request" where
  "createThreadRequest rt =
     \<lparr>httpMethod = js ''POST'', url = baseUrl @ js ''/threads'', body = Some (stringify rt (Obj []))\<rparr>"

definition addMessageRequest :: "runtime \<Rightarrow> jsstring \<Rightarrow> jsstring \<Rightarrow> request" where
  "addMessageRequest rt threadId userInput =
     \<lparr>httpMethod = js ''POST'', url = baseUrl @ js ''/threads/'' @ threadId @ js ''/messages'',
      body = Some (stringify rt (Obj [(js ''role'', Str (js ''user'')), (js ''content'', Str userInput)]))\<rparr>"

definition runRequest :: "runtime \<Rightarrow> jsstring \<Rightarrow> request" where
  "runRequest rt threadId =
     \<lparr>httpMethod = js ''POST'', url = baseUrl @ js ''/threads/'' @ threadId @ js ''/runs'',
      body = Some (stringify rt (Obj [(js ''assistant_id'', Str assistantId)]))\<rparr>"

definition pollRequest :: "jsstring \<Rightarrow> jsstring \<Rightarrow> request" where
  "pollRequest threadId runId =
     \<lparr>httpMethod = js ''GET'', url = baseUrl @ js ''/threads/'' @ threadId @ js ''/runs/'' @ runId,
      body = None\<rparr>"

definition getMessagesRequest :: "jsstring \<Rightarrow> request" where
  "getMessagesRequest threadId =
     \<lparr>httpMethod = js ''GET'', url = baseUrl @ js ''/threads/'' @ threadId @ js ''/messages'',
      body = None\<rparr>"

text \<open>
  The first three calls: create the thread, add the message, start the run. The result is
  either the way the function ends there, or the thread identifier as it stands in the
  later URLs together with \<^verbatim>\<open>runId\<close> and the first \<^verbatim>\<open>runStatus\<close>. Writing to the console is
  left out.
\<close>

definition startRun ::
  "runtime \<Rightarrow> network \<Rightarrow> jsstring \<Rightarrow> (outcome + jsstring \<times> jsval \<times> jsval) \<times> event list" where
  "startRun rt net userInput =
     (let tr1 = [Fetch (createThreadRequest rt)] in
      case fetchJson net 0 of
        Inl e \<Rightarrow> (Inl (Thrown e), tr1)
      | Inr (status1, threadData) \<Rightarrow>
          if \<not> ok status1 then
            (case toStr rt threadData of
               Inl e \<Rightarrow> (Inl (Thrown e), tr1)
             | Inr details \<Rightarrow>
                 (Inl (Returned (Str (js ''Failed to create thread. Details: '' @ details))), tr1))
          else
            (case getProp rt threadData (js ''id'') of
               Inl e \<Rightarrow> (Inl (Thrown e), tr1)
             | Inr threadIdVal \<Rightarrow>
                 (case toStr rt threadIdVal of
                    Inl e \<Rightarrow> (Inl (Thrown e), tr1)
                  | Inr threadId \<Rightarrow>
                      (let tr2 = tr1 @ [Fetch (addMessageRequest rt threadId userInput)] in
                       case fetchJson net 1 of
                         Inl e \<Rightarrow> (Inl (Thrown e), tr2)
                       | Inr (status2, messageData) \<Rightarrow>
                           if \<not> ok status2 then
                             (Inl (Returned (Str (js ''Failed to add message to thread. Details: ''
                                @ stringify rt messageData))), tr2)
                           else
                             (let tr3 = tr2 @ [Fetch (runRequest rt threadId)] in
                              case fetchJson net 2 of
                                Inl e \<Rightarrow> (Inl (Thrown e), tr3)
                              | Inr (status3, runData) \<Rightarrow>
                                  if \<not> ok status3 then
                                    (Inl (Returned (Str (js ''Failed to run assistant on thread. Details: ''
                                       @ stringify rt runData))), tr3)
                                  else
                                    (case getProp rt runData (js ''id'') of
                                       Inl e \<Rightarrow> (Inl (Thrown e), tr3)
                                     | Inr runId \<Rightarrow>
                                         (case getProp rt runData (js ''status'') of
                                            Inl e \<Rightarrow> (Inl (Thrown e), tr3)
                                          | Inr runStatus \<Rightarrow>
                                              (Inr (threadId, runId, runStatus), tr3))))))))"

text \<open>
  The polling loop. \<open>i\<close> counts the calls made so far. The loop is left with the last
  \<^verbatim>\<open>runStatus\<close> when that is \<^verbatim>\<open>completed\<close> or \<^verbatim>\<open>failed\<close>; inside, the function can return
  or throw. Nothing bounds the number of rounds, so the loop is a partial function: it has
  no value when it goes on for ever.
\<close>

partial_function (option) pollRun ::
  "runtime \<Rightarrow> network \<Rightarrow> jsstring \<Rightarrow> jsval \<Rightarrow> nat \<Rightarrow> jsval \<Rightarrow> event list
   \<Rightarrow> ((outcome + jsval) \<times> nat \<times> event list) option" where
  "pollRun rt net threadId runId i runStatus tr =
     (if runStatus \<noteq> Str (js ''completed'') \<and> runStatus \<noteq> Str (js ''failed'') then
        (case toStr rt runId of
           Inl e \<Rightarrow> Some (Inl (Thrown e), i, tr @ [Sleep 1000])
         | Inr rid \<Rightarrow>
             (case fetchJson net i of
                Inl e \<Rightarrow>
                  Some (Inl (Thrown e), Suc i, tr @ [Sleep 1000, Fetch (pollRequest threadId rid)])
              | Inr (status, pollData) \<Rightarrow>
                  (case getProp rt pollData (js ''status'') of
                     Inl e \<Rightarrow>
                       Some (Inl (Thrown e), Suc i,
                             tr @ [Sleep 1000, Fetch (pollRequest threadId rid)])
                   | Inr pollStatus \<Rightarrow>
                       if \<not> toBoolean pollStatus then
                         Some (Inl (Returned (Str (js ''Failed to retrieve run status.''))), Suc i,
                               tr @ [Sleep 1000, Fetch (pollRequest threadId rid)])
                       else pollRun rt net threadId runId (Suc i) pollStatus
                              (tr @ [Sleep 1000, Fetch (pollRequest threadId rid)]))))
      else Some (Inr runStatus, i, tr))"

text \<open>\<^verbatim>\<open>messagesData.data.find((msg) => msg.role === 'assistant')\<close>\<close>

fun findAssistant :: "runtime \<Rightarrow> jsval list \<Rightarrow> js_error + jsval" where
  "findAssistant rt [] = Inr Undefined"
| "findAssistant rt (msg # msgs) =
     (case getProp rt msg (js ''role'') of
        Inl e \<Rightarrow> Inl e
      | Inr role \<Rightarrow> if role = Str (js ''assistant'') then Inr msg else findAssistant rt msgs)"

text \<open>\<^verbatim>\<open>assistantMessage.content[0]?.text?.value\<close>, read once \<^verbatim>\<open>assistantMessage.content\<close> is truthy.\<close>

definition textValue :: "runtime \<Rightarrow> jsval \<Rightarrow> js_error + jsval" where
  "textValue rt content =
     (case getFirst rt content of
        Inl e \<Rightarrow> Inl e
      | Inr first \<Rightarrow>
          (case getPropOpt rt first (js ''text'') of
             Inl e \<Rightarrow> Inl e
           | Inr txt \<Rightarrow> getPropOpt rt txt (js ''value'')))"

definition noResponse :: jsstring where
  "noResponse = js ''No response from assistant.''"

text \<open>What the function does with the list of messages once it has been fetched.\<close>

definition extractAnswer :: "runtime \<Rightarrow> jsval \<Rightarrow> outcome" where
  "extractAnswer rt messagesData =
     (if \<not> toBoolean messagesData then
        Returned (Str (js ''No messages found or the response structure is unexpected. ''
          @ stringify rt messagesData))
      else
        (case getProp rt messagesData (js ''data'') of
           Inl e \<Rightarrow> Thrown e
         | Inr (Arr (m # ms)) \<Rightarrow>
             (case findAssistant rt (m # ms) of
                Inl e \<Rightarrow> Thrown e
              | Inr assistantMessage \<Rightarrow>
                  if \<not> toBoolean assistantMessage then Returned (Str noResponse)
                  else
                    (case getProp rt assistantMessage (js ''content'') of
                       Inl e \<Rightarrow> Thrown e
                     | Inr content \<Rightarrow>
                         if \<not> toBoolean content then Returned (Str noResponse)
                         else
                           (case textValue rt content of
                              Inl e \<Rightarrow> Thrown e
                            | Inr v \<Rightarrow>
                                if toBoolean v then Returned v else Returned (Str noResponse))))
         | Inr _ \<Rightarrow>
             Returned (Str (js ''No messages found or the response structure is unexpected. ''
               @ stringify rt messagesData))))"

text \<open>After the loop: the failed run, or the call that fetches the messages.\<close>

definition fetchAnswer ::
  "runtime \<Rightarrow> network \<Rightarrow> jsstring \<Rightarrow> nat \<Rightarrow> jsval \<Rightarrow> event list \<Rightarrow> outcome \<times> event list" where
  "fetchAnswer rt net threadId i runStatus tr =
     (if runStatus = Str (js ''failed'') then
        (Returned (Str (js ''Assistant failed to process the thread.'')), tr)
      else
        (let tr' = tr @ [Fetch (getMessagesRequest threadId)] in
         case fetchJson net i of
           Inl e \<Rightarrow> (Thrown e, tr')
         | Inr (status, messagesData) \<Rightarrow>
             if \<not> ok status then
               (Returned (Str (js ''Failed to fetch assistant response. Status: '' @ showNat status
                  @ js '', Details: '' @ stringify rt messagesData)), tr')
             else (extractAnswer rt messagesData, tr')))"

text \<open>The \<^verbatim>\<open>catch\<close> clause around the whole body.\<close>

fun catchAll :: "outcome \<Rightarrow> outcome" where
  "catchAll (Returned v) = Returned v"
| "catchAll (Thrown e) =
     Returned (Str (js ''An error occurred while processing your request: '' @ message e))"

text \<open>
  The function: how it ends and what it did on the way, or no value when it never ends.
\<close>

definition createThreadWithMessage ::
  "runtime \<Rightarrow> network \<Rightarrow> jsstring \<Rightarrow> (outcome \<times> event list) option" where
  "createThreadWithMessage rt net userInput =
     (case startRun rt net userInput of
        (Inl out, tr) \<Rightarrow> Some (catchAll out, tr)
      | (Inr (threadId, runId, runStatus), tr) \<Rightarrow>
          (case pollRun rt net threadId runId 3 runStatus tr of
             None \<Rightarrow> None
           | Some (Inl out, i, tr') \<Rightarrow> Some (catchAll out, tr')
           | Some (Inr finalStatus, i, tr') \<Rightarrow>
               (case fetchAnswer rt net threadId i finalStatus tr' of
                  (out, tr'') \<Rightarrow> Some (catchAll out, tr''))))"

section \<open>sendMessage\<close>

text \<open>
  Of the chat window the model keeps the list of the messages shown, whether the thinking
  indicator is shown, and the global array \<^verbatim>\<open>collectedReferences\<close>. sendMessage shows the
  user's message and the indicator, waits for createThreadWithMessage, removes the
  indicator and shows the sanitized response. A response that is not a string has no
  \<^verbatim>\<open>replace\<close> method: sanitizeAssistantResponse throws after resetting the array, and the
  \<^verbatim>\<open>catch\<close> clause throws in turn, since the indicator it removes is gone already. The
  result is the window and the error that sendMessage ends with, if any; there is no
  result when createThreadWithMessage never ends.
\<close>

datatype sender = User | Chatbot

record chatMessage =
  sender :: sender
  content :: jsstring
  isError :: bool

record window =
  messages :: "chatMessage list"
  thinking :: bool
  collectedReferences :: "refval list"

definition sendMessage ::
  "runtime \<Rightarrow> js_error \<Rightarrow> network \<Rightarrow> jsstring \<Rightarrow> window \<Rightarrow> (window \<times> js_error option) option" where
  "sendMessage rt notFound net inputValue w =
     (if trim inputValue = [] then Some (w, None)
      else
        (let w1 = w\<lparr>messages := messages w @ [\<lparr>sender = User, content = inputValue, isError = False\<rparr>],
                    thinking := True\<rparr> in
         case createThreadWithMessage rt net inputValue of
           None \<Rightarrow> None
         | Some (Thrown e, tr) \<Rightarrow>
             Some (w1\<lparr>messages := messages w1 @
                       [\<lparr>sender = Chatbot,
                         content = js ''Sorry, there was an error processing your request.'',
                         isError = True\<rparr>],
                     thinking := False\<rparr>, None)
         | Some (Returned response, tr) \<Rightarrow>
             (case response of
                Str text \<Rightarrow>
                  (case sanitizeAssistantResponse text (collectedReferences w1) of
                     (sanitizedResponse, collected) \<Rightarrow>
                       Some (w1\<lparr>messages := messages w1 @
                                 [\<lparr>sender = Chatbot, content = sanitizedResponse, isError = False\<rparr>],
                               thinking := False, collectedReferences := collected\<rparr>, None))
              | _ \<Rightarrow> Some (w1\<lparr>thinking := False, collectedReferences := []\<rparr>, Some notFound))))"

section \<open>The regular expressions, matched by backtracking\<close>

text \<open>
  The expressions of the source, as terms, and the order in which a backtracking matcher tries
  the ends of a match at the head of a string: the alternatives of a choice from left to right,
  a repetition greedily, an iteration that consumes nothing refused. The functions
  \<^term>\<open>matchHashes\<close>, \<^term>\<open>matchMarkers\<close>, \<^term>\<open>matchLink\<close> and the others above are
  shown below to return the first of these ends.
\<close>

datatype rx = Eps | Unit "jschar \<Rightarrow> bool" | Then rx rx | Or rx rx | Star rx

function ends :: "rx \<Rightarrow> jsstring \<Rightarrow> nat list" where
  "ends Eps s = [0]"
| "ends (Unit p) s = (case s of [] \<Rightarrow> [] | c # _ \<Rightarrow> if p c then [1] else [])"
| "ends (Then a b) s = concat (map (\<lambda>n. map (\<lambda>m. n + m) (ends b (drop n s))) (ends a s))"
| "ends (Or a b) s = ends a s @ ends b s"
| "ends (Star a) s =
     concat (map (\<lambda>n. if n = 0 \<or> length s < n then []
                        else map (\<lambda>m. n + m) (ends (Star a) (drop n s)))
                 (ends a s)) @ [0]"
  by pat_completeness auto
termination
  by (relation "measure size <*lex*> measure length") auto

definition firstOf :: "nat list \<Rightarrow> nat option" where
  "firstOf ns = (case ns of [] \<Rightarrow> None | n # _ \<Rightarrow> Some n)"

definition firstEnd :: "rx \<Rightarrow> jsstring \<Rightarrow> nat option" where
  "firstEnd r s = firstOf (ends r s)"

definition many1 :: "rx \<Rightarrow> rx" where
  "many1 r = Then r (Star r)"

definition optional :: "rx \<Rightarrow> rx" where
  "optional r = Or r Eps"

fun lit :: "jsstring \<Rightarrow> rx" where
  "lit [] = Eps"
| "lit (c # cs) = Then (Unit (\<lambda>x. x = c)) (lit cs)"

fun litCI :: "jsstring \<Rightarrow> rx" where
  "litCI [] = Eps"
| "litCI (c # cs) = Then (Unit (\<lambda>x. canon x = canon c)) (litCI cs)"

definition rxHashes :: rx where
  "rxHashes = Then (many1 (Unit (\<lambda>c. c = 35))) (optional (Unit isSpace))"

definition rxStars :: rx where
  "rxStars = lit [42, 42]"

definition rxBracket :: rx where
  "rxBracket = Then (Unit (\<lambda>c. c = 91)) (Then (Star (Unit (\<lambda>c. c \<noteq> 93))) (Unit (\<lambda>c. c = 93)))"

definition rxMarker :: rx where
  "rxMarker = Then (Unit (\<lambda>c. c = lbr)) (Then (many1 (Unit (\<lambda>c. c \<noteq> dagger))) (lit markerTail))"

definition rxMarkers :: rx where
  "rxMarkers = many1 rxMarker"

definition rxSection :: rx where
  "rxSection =
     Then (Unit (\<lambda>c. c = 44))
       (Then (Star (Unit isSpace))
          (Then (litCI (js ''Section '')) (many1 (Unit (\<lambda>c. c \<noteq> 41 \<and> c \<noteq> 10)))))"

definition rxLink :: rx where
  "rxLink =
     Then (Or (litCI (js ''Refer to'')) (Or (litCI (js ''See'')) (litCI (js ''For''))))
       (Then (many1 (Unit (\<lambda>c. c \<noteq> 45)))
          (Then (litCI (js '' - Page ''))
             (Then (many1 (Unit isDigit)) (optional rxSection))))"


section \<open>Notions used in the statements\<close>

text \<open>
  A reference marker as the assistant writes it, for a code that the expression accepts:
  not empty and free of daggers.
\<close>

definition marker :: "jsstring \<Rightarrow> jsstring" where
  "marker code = lbr # code @ markerTail"

definition validCode :: "jsstring \<Rightarrow> bool" where
  "validCode code = (code \<noteq> [] \<and> dagger \<notin> set code)"

text \<open>Appending a citation that has not been seen yet.\<close>

definition appendNew :: "'a list \<Rightarrow> 'a \<Rightarrow> 'a list" where
  "appendNew xs x = (if x \<in> set xs then xs else xs @ [x])"

text \<open>No match of the expression begins anywhere in the text.\<close>

fun noMatch :: "(jsstring \<Rightarrow> nat option) \<Rightarrow> jsstring \<Rightarrow> bool" where
  "noMatch m [] = (m [] = None)"
| "noMatch m (c # cs) = (m (c # cs) = None \<and> noMatch m cs)"

text \<open>
  The codes of all markers that unifyConsecutiveReferences meets, in text order, and the
  superscript block for a run of codes numbered in a given reference list.
\<close>

definition allCodes :: "seg list \<Rightarrow> jsstring list" where
  "allCodes segs = concat (map execAll (hits segs))"

definition footnote :: "refval list \<Rightarrow> jsstring list \<Rightarrow> jsstring" where
  "footnote collected codes =
     js ''<sup>['' @
     joinWith (js '','')
       (map showInt (sort (remdups (map (\<lambda>c. indexOf collected (resolve c) + 1) codes))))
     @ js '']</sup>''"

text \<open>
  Texts on which no stage of sanitizeAssistantResponse finds anything: no heading or bold
  marker and no bracketed content, no reference marker, none of the five headings in any
  capitalisation, no reference phrase.
\<close>

definition noMarkdown :: "jsstring \<Rightarrow> bool" where
  "noMarkdown text =
     (noMatch matchHashes text \<and> noMatch matchStars text \<and> noMatch matchBracket text)"

definition noHeadings :: "jsstring \<Rightarrow> bool" where
  "noHeadings text =
     (noMatch (matchPhrase (js ''Question Asked'')) text
      \<and> noMatch (matchPhrase (js ''Extracted Insight'')) text
      \<and> noMatch (matchPhrase (js ''Document Section/Page'')) text
      \<and> noMatch (matchPhrase (js ''Confidence Score'')) text
      \<and> noMatch (matchPhrase (js ''Additional Notes'')) text)"

definition plainText :: "jsstring \<Rightarrow> bool" where
  "plainText text =
     (noMarkdown text \<and> noMatch matchMarker text \<and> noHeadings text \<and> noMatch matchLink text)"

text \<open>A matcher that still matches when text is appended behind what it matched in.\<close>

definition stable :: "(jsstring \<Rightarrow> nat option) \<Rightarrow> bool" where
  "stable m = (\<forall>x w. m x \<noteq> None \<longrightarrow> m (x @ w) \<noteq> None)"

text \<open>
  The steps of a query as the network sees them. The thread is created when the first
  answer has a success status and a body whose \<^verbatim>\<open>id\<close> can be put into a URL; the message
  is accepted when the second answer has a success status and a body that parses; the run
  is started when the third answer has a success status and a body that is not
  \<^verbatim>\<open>null\<close>.
\<close>

definition threadOf :: "runtime \<Rightarrow> fetch_result \<Rightarrow> jsstring option" where
  "threadOf rt r =
     (case r of
        Rejected e \<Rightarrow> None
      | Response status b \<Rightarrow>
          (case b of
             Inl e \<Rightarrow> None
           | Inr threadData \<Rightarrow>
               if \<not> ok status then None
               else (case getProp rt threadData (js ''id'') of
                       Inl e \<Rightarrow> None
                     | Inr v \<Rightarrow> (case toStr rt v of Inl e \<Rightarrow> None | Inr threadId \<Rightarrow> Some threadId))))"

definition accepted :: "fetch_result \<Rightarrow> bool" where
  "accepted r =
     (case r of
        Rejected e \<Rightarrow> False
      | Response status b \<Rightarrow> (case b of Inl e \<Rightarrow> False | Inr v \<Rightarrow> ok status))"

definition runOf :: "runtime \<Rightarrow> fetch_result \<Rightarrow> (jsval \<times> jsval) option" where
  "runOf rt r =
     (case r of
        Rejected e \<Rightarrow> None
      | Response status b \<Rightarrow>
          (case b of
             Inl e \<Rightarrow> None
           | Inr runData \<Rightarrow>
               if \<not> ok status then None
               else (case getProp rt runData (js ''id'') of
                       Inl e \<Rightarrow> None
                     | Inr runId \<Rightarrow>
                         (case getProp rt runData (js ''status'') of
                            Inl e \<Rightarrow> None
                          | Inr runStatus \<Rightarrow> Some (runId, runStatus)))))"

text \<open>
  The status that an answer to a poll carries, when the answer arrives, parses and is not
  \<^verbatim>\<open>null\<close>. A status is terminal when it is \<^verbatim>\<open>completed\<close> or \<^verbatim>\<open>failed\<close>; an answer is pending
  when it carries a status that is truthy and not terminal; a poll fails when its answer
  carries no status or a falsy one.
\<close>

definition statusOf :: "runtime \<Rightarrow> fetch_result \<Rightarrow> jsval option" where
  "statusOf rt r =
     (case r of
        Rejected e \<Rightarrow> None
      | Response status b \<Rightarrow>
          (case b of
             Inl e \<Rightarrow> None
           | Inr pollData \<Rightarrow>
               (case getProp rt pollData (js ''status'') of Inl e \<Rightarrow> None | Inr st \<Rightarrow> Some st)))"

definition terminal :: "jsval \<Rightarrow> bool" where
  "terminal st = (st = Str (js ''completed'') \<or> st = Str (js ''failed''))"

definition pending :: "runtime \<Rightarrow> fetch_result \<Rightarrow> bool" where
  "pending rt r = (case statusOf rt r of None \<Rightarrow> False | Some st \<Rightarrow> toBoolean st \<and> \<not> terminal st)"

definition pollFails :: "runtime \<Rightarrow> fetch_result \<Rightarrow> bool" where
  "pollFails rt r = (case statusOf rt r of None \<Rightarrow> True | Some st \<Rightarrow> \<not> toBoolean st)"

text \<open>The status in hand after \<open>n\<close> polls, the first of which is call number \<open>i\<close>.\<close>

fun statusAfter :: "runtime \<Rightarrow> network \<Rightarrow> jsval \<Rightarrow> nat \<Rightarrow> nat \<Rightarrow> jsval" where
  "statusAfter rt net st i 0 = st"
| "statusAfter rt net st i (Suc n) =
     (case statusOf rt (net (i + n)) of None \<Rightarrow> Undefined | Some st' \<Rightarrow> st')"

text \<open>The calls that open a query, and \<open>n\<close> rounds of polling: a wait of one second, then the call.\<close>

definition openingCalls :: "runtime \<Rightarrow> jsstring \<Rightarrow> jsstring \<Rightarrow> event list" where
  "openingCalls rt threadId userInput =
     [Fetch (createThreadRequest rt), Fetch (addMessageRequest rt threadId userInput),
      Fetch (runRequest rt threadId)]"

definition pollRounds :: "jsstring \<Rightarrow> jsstring \<Rightarrow> nat \<Rightarrow> event list" where
  "pollRounds threadId rid n = concat (replicate n [Sleep 1000, Fetch (pollRequest threadId rid)])"

text \<open>
  A call other than a poll fails when it is rejected, when its body does not parse, or when
  its status is not a success status.
\<close>

definition httpFails :: "fetch_result \<Rightarrow> bool" where
  "httpFails r = (\<not> accepted r)"

text \<open>The error texts of the five steps, and the text that the \<^verbatim>\<open>catch\<close> clause returns.\<close>

datatype step = CreateThread | AddMessage | StartRun | Poll | FetchMessages



fun stepErrorPrefix :: "step \<Rightarrow> jsstring" where
  "stepErrorPrefix CreateThread = js ''Failed to create thread. Details: ''"
| "stepErrorPrefix AddMessage = js ''Failed to add message to thread. Details: ''"
| "stepErrorPrefix StartRun = js ''Failed to run assistant on thread. Details: ''"
| "stepErrorPrefix Poll = js ''Failed to retrieve run status.''"
| "stepErrorPrefix FetchMessages = js ''Failed to fetch assistant response. Status: ''"

definition catchPrefix :: jsstring where
  "catchPrefix = js ''An error occurred while processing your request: ''"

definition reportsFailure :: "step \<Rightarrow> outcome \<Rightarrow> bool" where
  "reportsFailure s out =
     (case out of
        Thrown e \<Rightarrow> False
      | Returned v \<Rightarrow>
          (case v of
             Str msg \<Rightarrow> prefix (stepErrorPrefix s) msg \<or> prefix catchPrefix msg
           | _ \<Rightarrow> False))"

text \<open>
  The first entry of the message list whose role is \<^verbatim>\<open>assistant\<close>, and the text payload
  \<^verbatim>\<open>content[0].text.value\<close> of an entry, \<^verbatim>\<open>undefined\<close> when any part of the path is missing.
\<close>

definition isAssistant :: "runtime \<Rightarrow> jsval \<Rightarrow> bool" where
  "isAssistant rt msg = (getProp rt msg (js ''role'') = Inr (Str (js ''assistant'')))"

definition textPayload :: "runtime \<Rightarrow> jsval \<Rightarrow> jsval" where
  "textPayload rt msg =
     (case getProp rt msg (js ''content'') of
        Inl e \<Rightarrow> Undefined
      | Inr c \<Rightarrow>
          if \<not> toBoolean c then Undefined
          else (case textValue rt c of Inl e \<Rightarrow> Undefined | Inr v \<Rightarrow> v))"

definition isString :: "jsval \<Rightarrow> bool" where
  "isString v = (case v of Str s \<Rightarrow> True | _ \<Rightarrow> False)"

text \<open>
  The run reaches the status \<open>final\<close> with the \<open>m\<close>-th poll: it starts with it when \<open>m\<close> is
  zero; otherwise the status at the start is not terminal, the polls before the \<open>m\<close>-th are
  pending, and the \<open>m\<close>-th carries \<open>final\<close>.
\<close>

fun reaches :: "runtime \<Rightarrow> network \<Rightarrow> jsval \<Rightarrow> nat \<Rightarrow> jsval \<Rightarrow> bool" where
  "reaches rt net st 0 final = (st = final)"
| "reaches rt net st (Suc n) final =
     (\<not> terminal st \<and> list_all (\<lambda>k. pending rt (net (3 + k))) [0..<n]
      \<and> statusOf rt (net (3 + n)) = Some final)"

definition failedText :: jsstring where
  "failedText = js ''Assistant failed to process the thread.''"


text \<open>
  The entries of the message list, when the body is truthy and its \<^verbatim>\<open>data\<close> is an array; an
  entry is present when it is neither \<^verbatim>\<open>null\<close> nor \<^verbatim>\<open>undefined\<close>; the two texts that stand
  for an empty response.
\<close>

definition messageEntries :: "runtime \<Rightarrow> jsval \<Rightarrow> jsval list option" where
  "messageEntries rt messagesData =
     (if \<not> toBoolean messagesData then None
      else (case getProp rt messagesData (js ''data'') of
              Inl e \<Rightarrow> None
            | Inr d \<Rightarrow> (case d of Arr msgs \<Rightarrow> Some msgs | _ \<Rightarrow> None)))"

definition present :: "jsval \<Rightarrow> bool" where
  "present v = (v \<noteq> Null \<and> v \<noteq> Undefined)"

definition noMessagesText :: "runtime \<Rightarrow> jsval \<Rightarrow> jsstring" where
  "noMessagesText rt messagesData =
     js ''No messages found or the response structure is unexpected. '' @ stringify rt messagesData"

definition emptyResponse :: "runtime \<Rightarrow> jsval \<Rightarrow> jsval \<Rightarrow> bool" where
  "emptyResponse rt messagesData v =
     (v = Str noResponse \<or> v = Str (noMessagesText rt messagesData))"


text \<open>
  A runtime for the examples, as a browser with the V8 engine behaves on the values that
  the examples hold: whole numbers, and texts without control characters. An object in a
  template literal reads \<^verbatim>\<open>[object Object]\<close>, an array the texts of its elements with commas
  between them; \<^verbatim>\<open>JSON.stringify\<close> quotes texts and leaves out the white space.
\<close>

definition jsonQuote :: "jsstring \<Rightarrow> jsstring" where
  "jsonQuote s = 34 # concat (map (\<lambda>c. if c = 34 \<or> c = 92 then [92, c] else [c]) s) @ [34]"

fun demoStringify :: "jsval \<Rightarrow> jsstring" where
  "demoStringify Undefined = js ''undefined''"
| "demoStringify Null = js ''null''"
| "demoStringify (Bool b) = (if b then js ''true'' else js ''false'')"
| "demoStringify (Num r) = showInt \<lfloor>r\<rfloor>"
| "demoStringify (Str s) = jsonQuote s"
| "demoStringify (Arr xs) =
     js ''['' @ joinWith (js '','')
       (map (\<lambda>x. if x = Undefined then js ''null'' else demoStringify x) xs) @ js '']''"
| "demoStringify (Obj kvs) =
     js ''{'' @ joinWith (js '','')
       (map (\<lambda>p. jsonQuote (fst p) @ js '':'' @ demoStringify (snd p))
          (filter (\<lambda>p. snd p \<noteq> Undefined) kvs)) @ js ''}''"

fun demoToString :: "jsval \<Rightarrow> jsstring" where
  "demoToString Undefined = js ''undefined''"
| "demoToString Null = js ''null''"
| "demoToString (Bool b) = (if b then js ''true'' else js ''false'')"
| "demoToString (Num r) = showInt \<lfloor>r\<rfloor>"
| "demoToString (Str s) = s"
| "demoToString (Arr xs) =
     joinWith (js '','')
       (map (\<lambda>x. if x = Undefined \<or> x = Null then [] else demoToString x) xs)"
| "demoToString (Obj kvs) = js ''[object Object]''"

definition demoRuntime :: runtime where
  "demoRuntime =
     \<lparr>objectToString = (\<lambda>v. Inr (demoToString v)),
      stringify = demoStringify,
      nullReadMessage =
        (\<lambda>v p. js ''Cannot read properties of '' @ demoToString v @ js '' (reading ''
                 @ [39] @ p @ [39] @ js '')'')\<rparr>"

definition startedRun :: "nat \<Rightarrow> fetch_result" where
  "startedRun i =
     Response 200 (Inr (Obj [(js ''id'', Str (js ''id_'' @ showNat i)), (js ''status'', Str (js ''queued''))]))"

definition pollAnswer :: "string \<Rightarrow> fetch_result" where
  "pollAnswer st = Response 200 (Inr (Obj [(js ''status'', Str (js st))]))"

definition userEntry :: jsval where
  "userEntry = Obj [(js ''role'', Str (js ''user'')), (js ''content'', Str (js ''hi''))]"

definition assistantEntry :: "jsval \<Rightarrow> jsval" where
  "assistantEntry v =
     Obj [(js ''role'', Str (js ''assistant'')),
          (js ''content'', Arr [Obj [(js ''text'', Obj [(js ''value'', v)])]])]"

definition messagesBody :: "jsval \<Rightarrow> jsval" where
  "messagesBody v = Obj [(js ''data'', Arr [userEntry, assistantEntry v])]"

definition messageList :: "jsval \<Rightarrow> fetch_result" where
  "messageList v = Response 200 (Inr (messagesBody v))"

definition happy :: network where
  "happy i =
     (if i < 3 then startedRun i
      else if i = 3 then pollAnswer ''queued''
      else if i = 4 then pollAnswer ''completed''
      else messageList (Str (js ''Hello'')))"



definition nullEntry :: network where
  "nullEntry = happy(5 := Response 200 (Inr (Obj [(js ''data'', Arr [Null])])))"


definition failingRun :: network where
  "failingRun i =
     (if i < 3 then startedRun i
      else if i < 5 then pollAnswer ''in_progress''
      else pollAnswer ''failed'')"

definition userMessage :: "jsstring \<Rightarrow> chatMessage" where
  "userMessage t = \<lparr>sender = User, content = t, isError = False\<rparr>"

definition chatbotMessage :: "jsstring \<Rightarrow> chatMessage" where
  "chatbotMessage t = \<lparr>sender = Chatbot, content = t, isError = False\<rparr>"







section \<open>The matchers agree with the regular expressions\<close>

text \<open>
  Each matching function returns the match that backtracking finds first for the expression
  it stands for.
\<close>

declare ends.simps(5) [simp del]

lemma ends_le: "n \<in> set (ends r s) \<Longrightarrow> n \<le> length s"
proof (induction r s arbitrary: n rule: ends.induct)
  case (1 s)
  then show ?case by simp
next
  case (2 p s)
  then show ?case by (cases s) (auto split: if_splits)
next
  case (3 a b s)
  from "3.prems" obtain k m where k: "k \<in> set (ends a s)" and m: "m \<in> set (ends b (drop k s))"
    and n: "n = k + m" by auto
  from "3.IH"(1)[OF k] have "k \<le> length s" .
  moreover from "3.IH"(2)[OF k m] have "m \<le> length s - k" by simp
  ultimately show ?case using n by simp
next
  case (4 a b s)
  then show ?case by auto
next
  case (5 a s)
  from "5.prems" have "n = 0 \<or> (\<exists>k m. k \<in> set (ends a s) \<and> \<not> (k = 0 \<or> length s < k)
      \<and> m \<in> set (ends (Star a) (drop k s)) \<and> n = k + m)"
    by (subst (asm) ends.simps(5)) (auto split: if_splits)
  then show ?case
  proof
    assume "n = 0"
    then show ?thesis by simp
  next
    assume "\<exists>k m. k \<in> set (ends a s) \<and> \<not> (k = 0 \<or> length s < k)
      \<and> m \<in> set (ends (Star a) (drop k s)) \<and> n = k + m"
    then obtain k m where k: "k \<in> set (ends a s)" and c: "\<not> (k = 0 \<or> length s < k)"
      and m: "m \<in> set (ends (Star a) (drop k s))" and n: "n = k + m" by blast
    from "5.IH"(2)[OF k c m] have "m \<le> length s - k" by simp
    with c n show ?thesis by arith
  qed
qed

lemma ends_lit: "ends (lit p) s = (if prefix p s then [length p] else [])"
proof (induction p arbitrary: s)
  case Nil
  show ?case by simp
next
  case (Cons c cs)
  show ?case by (cases s) (simp_all add: Cons)
qed

lemma ends_litCI: "ends (litCI p) s = (case matchPhrase p s of None \<Rightarrow> [] | Some n \<Rightarrow> [n])"
proof (induction p arbitrary: s)
  case Nil
  show ?case by (simp add: matchPhrase_def)
next
  case (Cons c cs)
  show ?case
  proof (cases s)
    case Nil
    then show ?thesis by (simp add: matchPhrase_def)
  next
    case (Cons x xs)
    then show ?thesis using Cons.IH[of xs]
      by (auto simp: matchPhrase_def split: if_splits)
  qed
qed

lemma firstEnd_Nil: "ends r s = [] \<Longrightarrow> firstEnd r s = None"
  by (simp add: firstEnd_def firstOf_def)

lemma firstEnd_Cons: "ends r s = n # ns \<Longrightarrow> firstEnd r s = Some n"
  by (simp add: firstEnd_def firstOf_def)

lemma ends_star_unit_Cons:
  "ends (Star (Unit p)) (c # cs) = (if p c then map Suc (ends (Star (Unit p)) cs) @ [0] else [0])"
  by (subst ends.simps(5)) simp

lemma ends_star_unit: "ends (Star (Unit p)) s = rev [0..<Suc (length (takeWhile p s))]"
proof (induction s)
  case Nil
  show ?case by (subst ends.simps(5)) simp
next
  case (Cons c cs)
  let ?k = "length (takeWhile p cs)"
  have "[0..<Suc (Suc ?k)] = 0 # map Suc [0..<Suc ?k]"
    by (metis map_Suc_upt upt_conv_Cons zero_less_Suc)
  then have "rev [0..<Suc (Suc ?k)] = map Suc (rev [0..<Suc ?k]) @ [0]"
    by (simp only: rev.simps rev_map)
  then show ?case using Cons
  proof (cases "p c")
    case True
    with Cons \<open>rev [0..<Suc (Suc ?k)] = map Suc (rev [0..<Suc ?k]) @ [0]\<close> show ?thesis
      by (simp add: ends_star_unit_Cons del: upt_Suc)
  next
    case False
    then show ?thesis by (simp add: ends_star_unit_Cons)
  qed
qed

lemma ends_plus_unit: "ends (many1 (Unit p)) s = rev [1..<Suc (length (takeWhile p s))]"
proof (cases s)
  case Nil
  then show ?thesis by (simp add: many1_def)
next
  case (Cons c cs)
  let ?k = "length (takeWhile p cs)"
  have "map Suc (rev [0..<Suc ?k]) = rev [Suc 0..<Suc (Suc ?k)]"
    by (simp only: map_Suc_upt rev_map[symmetric])
  moreover have "(+) (Suc 0) = Suc" by auto
  ultimately show ?thesis using Cons by (cases "p c") (simp_all add: many1_def ends_star_unit del: upt_Suc)
qed

lemma concat_map_all_Nil: "(\<And>x. x \<in> set xs \<Longrightarrow> f x = []) \<Longrightarrow> concat (map f xs) = []"
  by (induction xs) simp_all

lemma hd_takeWhile_region:
  assumes "n < length (takeWhile p s)"
  shows "drop n s \<noteq> [] \<and> p (hd (drop n s))"
proof -
  from assms have l: "n < length s" using length_takeWhile_le[of p s] by simp
  from assms have "takeWhile p s ! n = s ! n" by (rule takeWhile_nth)
  moreover from assms have "p (takeWhile p s ! n)" using nth_mem set_takeWhileD by metis
  ultimately show ?thesis using l by (simp add: hd_drop_conv_nth)
qed

lemma ends_then_star:
  assumes "\<And>t. t \<noteq> [] \<Longrightarrow> p (hd t) \<Longrightarrow> ends b t = []"
  shows "ends (Then (Star (Unit p)) b) s =
         map (\<lambda>m. length (takeWhile p s) + m) (ends b (drop (length (takeWhile p s)) s))"
proof -
  let ?k = "length (takeWhile p s)"
  let ?f = "\<lambda>n. map (\<lambda>m. n + m) (ends b (drop n s))"
  have "rev [0..<Suc ?k] = ?k # rev [0..<?k]" by simp
  moreover have "concat (map ?f (rev [0..<?k])) = []"
  proof (rule concat_map_all_Nil)
    fix n assume "n \<in> set (rev [0..<?k])"
    then have "n < ?k" by simp
    from hd_takeWhile_region[OF this] assms show "?f n = []" by simp
  qed
  ultimately show ?thesis by (simp add: ends_star_unit del: upt_Suc)
qed

lemma ends_then_plus:
  assumes "\<And>t. t \<noteq> [] \<Longrightarrow> p (hd t) \<Longrightarrow> ends b t = []"
  shows "ends (Then (many1 (Unit p)) b) s =
         (if takeWhile p s = [] then []
          else map (\<lambda>m. length (takeWhile p s) + m) (ends b (drop (length (takeWhile p s)) s)))"
proof (cases "takeWhile p s = []")
  case True
  then show ?thesis by (simp add: ends_plus_unit)
next
  case False
  let ?k = "length (takeWhile p s)"
  let ?f = "\<lambda>n. map (\<lambda>m. n + m) (ends b (drop n s))"
  from False have k: "0 < ?k" by simp
  then have "rev [1..<Suc ?k] = ?k # rev [1..<?k]" by (simp add: Suc_leI)
  moreover have "concat (map ?f (rev [1..<?k])) = []"
  proof (rule concat_map_all_Nil)
    fix n assume "n \<in> set (rev [1..<?k])"
    then have "n < ?k" by simp
    from hd_takeWhile_region[OF this] assms show "?f n = []" by simp
  qed
  ultimately show ?thesis using False by (simp add: ends_plus_unit del: upt_Suc)
qed

lemma ends_then_plus_first:
  assumes "ends b (drop (length (takeWhile p s)) s) = m # ms" and "takeWhile p s \<noteq> []"
  shows "firstEnd (Then (many1 (Unit p)) b) s = Some (length (takeWhile p s) + m)"
proof -
  let ?k = "length (takeWhile p s)"
  from assms(2) have "0 < ?k" by simp
  then have "rev [1..<Suc ?k] = ?k # rev [1..<?k]" by (simp add: Suc_leI)
  then show ?thesis using assms(1) by (simp add: firstEnd_def firstOf_def ends_plus_unit del: upt_Suc)
qed

lemma ends_opt: "ends (optional r) s = ends r s @ [0]"
  by (simp add: optional_def)

lemma ends_unit: "ends (Unit p) s = (if s \<noteq> [] \<and> p (hd s) then [1] else [])"
  by (cases s) simp_all

declare ends.simps(2) [simp del]

lemma drop_takeWhile: "drop (length (takeWhile p s)) s = dropWhile p s"
  by (simp add: dropWhile_eq_drop)

theorem rxHashes_matchHashes: "firstEnd rxHashes s = matchHashes s"
proof (cases "takeWhile (\<lambda>c. c = 35) s = []")
  case True
  then have "ends rxHashes s = []" by (simp add: rxHashes_def ends_plus_unit)
  then show ?thesis using True by (simp add: firstEnd_Nil matchHashes_def)
next
  case False
  let ?k = "length (takeWhile (\<lambda>c. c = 35) s)"
  let ?r = "drop ?k s"
  show ?thesis
  proof (cases "?r \<noteq> [] \<and> isSpace (hd ?r)")
    case True
    then have "ends (optional (Unit isSpace)) ?r = 1 # [0]" by (simp add: ends_opt ends_unit)
    from ends_then_plus_first[OF this False] True False show ?thesis
      by (cases ?r) (simp_all add: rxHashes_def matchHashes_def Let_def)
  next
    case nsp: False
    then have "ends (optional (Unit isSpace)) ?r = 0 # []" by (auto simp: ends_opt ends_unit)
    from ends_then_plus_first[OF this False] nsp False show ?thesis
      by (cases ?r) (simp_all add: rxHashes_def matchHashes_def Let_def)
  qed
qed

theorem rxStars_matchStars: "firstEnd rxStars s = matchStars s"
  unfolding rxStars_def firstEnd_def firstOf_def ends_lit by (simp add: matchStars_def)

lemma ends_then_unit:
  "ends (Then (Unit p) b) s = (if s \<noteq> [] \<and> p (hd s) then map Suc (ends b (tl s)) else [])"
  by (cases s) (simp_all add: ends_unit)

theorem rxBracket_matchBracket: "firstEnd rxBracket s = matchBracket s"
proof (cases s)
  case Nil
  then show ?thesis by (simp add: rxBracket_def firstEnd_def firstOf_def matchBracket_def ends_unit)
next
  case (Cons c r)
  let ?p = "\<lambda>x. x \<noteq> (93::nat)"
  let ?k = "length (takeWhile ?p r)"
  let ?b = "Then (Star (Unit ?p)) (Unit (\<lambda>c. c = 93))"
  have e: "ends ?b r = map (\<lambda>m. ?k + m) (ends (Unit (\<lambda>c. c = 93)) (drop ?k r))"
    by (rule ends_then_star) (simp add: ends_unit)
  have d: "dropWhile ?p r \<noteq> [] \<longleftrightarrow> ?k < length r"
    using length_takeWhile_le[of ?p r] takeWhile_dropWhile_id[of ?p r]
    by (metis append_Nil2 length_append less_add_same_cancel1 length_greater_0_conv nat_less_le)
  have h: "dropWhile ?p r \<noteq> [] \<Longrightarrow> hd (dropWhile ?p r) = 93"
    using hd_dropWhile[of ?p r] by simp
  have u: "ends (Unit (\<lambda>c. c = 93)) (drop ?k r) = (if ?k < length r then [1] else [])"
    using d h by (simp add: ends_unit drop_takeWhile)
  have "ends rxBracket s = (if c = 91 then map Suc (ends ?b r) else [])"
    unfolding rxBracket_def ends_then_unit using Cons by simp
  also have "\<dots> = (if c = 91 \<and> ?k < length r then [?k + 2] else [])"
    unfolding e u by simp
  finally show ?thesis using Cons by (simp add: firstEnd_def firstOf_def matchBracket_def Let_def)
qed

theorem litCI_matchPhrase: "firstEnd (litCI p) s = matchPhrase p s"
  by (simp add: firstEnd_def firstOf_def ends_litCI split: option.splits)

lemma ends_star_ne: "ends (Star r) s \<noteq> []"
  by (subst ends.simps(5)) simp

lemma markerTail_Cons: "markerTail = dagger # js ''source'' @ [rbr]"
  by (simp add: markerTail_def)

lemma ends_markerTail_other: "t \<noteq> [] \<Longrightarrow> hd t \<noteq> dagger \<Longrightarrow> ends (lit markerTail) t = []"
  unfolding ends_lit by (cases t) (simp_all add: markerTail_Cons)

theorem rxMarker_matchMarker:
  "ends rxMarker s = (case matchMarker s of None \<Rightarrow> [] | Some n \<Rightarrow> [n])"
proof (cases s)
  case Nil
  then show ?thesis by (simp add: rxMarker_def ends_then_unit matchMarker_def del: ends.simps)
next
  case (Cons c r)
  let ?p = "\<lambda>x. x \<noteq> dagger"
  let ?k = "length (takeWhile ?p r)"
  let ?b = "Then (many1 (Unit ?p)) (lit markerTail)"
  have e: "ends ?b r = (if takeWhile ?p r = [] then []
             else map (\<lambda>m. ?k + m) (ends (lit markerTail) (drop ?k r)))"
    by (rule ends_then_plus) (simp add: ends_markerTail_other)
  have "ends rxMarker s = (if c = lbr then map Suc (ends ?b r) else [])"
    unfolding rxMarker_def ends_then_unit using Cons by simp
  also have "\<dots> = (if c = lbr \<and> takeWhile ?p r \<noteq> [] \<and> prefix markerTail (drop ?k r)
                     then [1 + ?k + length markerTail] else [])"
    unfolding e ends_lit by simp
  finally show ?thesis using Cons by (simp add: matchMarker_def Let_def)
qed

lemma ends_star_deterministic:
  assumes d: "\<And>t. ends r t = (case m t of None \<Rightarrow> [] | Some n \<Rightarrow> [n])"
  shows "hd (ends (Star r) s) = repeatMatch m s"
proof (induction s rule: length_induct)
  case (1 s)
  show ?case
  proof (cases s)
    case Nil
    have "ends r [] = [] \<or> ends r [] = [0]"
      using ends_le[of _ r "[]"] by (cases "ends r []") (auto simp: d split: option.splits)
    then show ?thesis using Nil by (subst ends.simps(5)) auto
  next
    case (Cons c cs)
    show ?thesis
    proof (cases "m s")
      case None
      then have "ends r s = []" by (simp add: d)
      then show ?thesis using None Cons by (subst ends.simps(5)) simp
    next
      case (Some n)
      then have e: "ends r s = [n]" by (simp add: d)
      then have le: "n \<le> length s" using ends_le[of n r s] by simp
      show ?thesis
      proof (cases n)
        case 0
        with e Some Cons show ?thesis by (subst ends.simps(5)) simp
      next
        case (Suc n')
        with le Cons have "length (drop n s) < length s" by simp
        with 1 have ih: "hd (ends (Star r) (drop n s)) = repeatMatch m (drop n s)" by blast
        have "ends (Star r) s = map (\<lambda>k. n + k) (ends (Star r) (drop n s)) @ [0]"
          using e le Suc by (subst ends.simps(5)) simp
        then have "hd (ends (Star r) s) = n + hd (ends (Star r) (drop n s))"
          using ends_star_ne[of r "drop n s"] by (simp add: hd_map)
        with ih Some Suc Cons show ?thesis by simp
      qed
    qed
  qed
qed

lemma ends_plus_deterministic:
  assumes d: "\<And>t. ends r t = (case m t of None \<Rightarrow> [] | Some n \<Rightarrow> [n])"
    and pos: "\<And>t. m t \<noteq> Some 0"
  shows "firstEnd (many1 r) s = (case repeatMatch m s of 0 \<Rightarrow> None | Suc n \<Rightarrow> Some (Suc n))"
proof (cases "m s")
  case None
  then have "ends r s = []" by (simp add: d)
  then have "firstEnd (many1 r) s = None" by (simp add: firstEnd_def firstOf_def many1_def)
  moreover from None have "repeatMatch m s = 0" by (cases s) simp_all
  ultimately show ?thesis by simp
next
  case (Some n)
  then have e: "ends r s = [n]" by (simp add: d)
  then have le: "n \<le> length s" using ends_le[of n r s] by simp
  have "ends (many1 r) s = map (\<lambda>k. n + k) (ends (Star r) (drop n s))"
    using e by (simp add: many1_def)
  then have f: "firstEnd (many1 r) s = Some (n + hd (ends (Star r) (drop n s)))"
    using ends_star_ne[of r "drop n s"]
    by (cases "ends (Star r) (drop n s)") (simp_all add: firstEnd_def firstOf_def)
  show ?thesis
  proof (cases n)
    case 0
    with Some pos show ?thesis by simp
  next
    case (Suc n')
    with le obtain c cs where s: "s = c # cs" by (cases s) auto
    then have "repeatMatch m s = n + repeatMatch m (drop n s)" using Some Suc by simp
    with f ends_star_deterministic[OF d, of "drop n s"] Suc show ?thesis by simp
  qed
qed

theorem rxMarkers_matchMarkers: "firstEnd rxMarkers s = matchMarkers s"
  unfolding rxMarkers_def matchMarkers_def
proof (rule ends_plus_deterministic)
  show "ends rxMarker t = (case matchMarker t of None \<Rightarrow> [] | Some n \<Rightarrow> [n])" for t
    by (rule rxMarker_matchMarker)
  show "matchMarker t \<noteq> Some 0" for t
    by (simp add: matchMarker_def Let_def split: list.splits)
qed

lemma ends_then_litCI:
  "ends (Then (litCI p) b) s =
     (case matchPhrase p s of None \<Rightarrow> [] | Some n \<Rightarrow> map (\<lambda>m. n + m) (ends b (drop n s)))"
  by (simp add: ends_litCI split: option.splits)

declare ends.simps [simp del]

lemma matchPhrase_Cons:
  "matchPhrase (a # p) s \<noteq> None \<Longrightarrow> s \<noteq> [] \<and> canon (hd s) = canon a"
  by (cases s) (simp_all add: matchPhrase_def split: if_splits)

lemma matchPhrase_Cons2:
  "matchPhrase (a # b # p) s \<noteq> None \<Longrightarrow>
     1 < length s \<and> canon (s ! 0) = canon a \<and> canon (s ! 1) = canon b"
  by (cases s; cases "tl s") (simp_all add: matchPhrase_def split: if_splits)

lemma canon_space: "isSpace c \<Longrightarrow> canon c \<noteq> canon 83"
  by (auto simp: isSpace_def canon_def split: if_splits)

lemma section_after_space:
  assumes "t \<noteq> []" and "isSpace (hd t)"
  shows "ends (Then (litCI (js ''Section '')) b) t = []"
proof -
  have "matchPhrase (js ''Section '') t = None"
  proof (rule ccontr)
    assume "matchPhrase (js ''Section '') t \<noteq> None"
    then have "canon (hd t) = canon 83"
      using matchPhrase_Cons[of 83 "js ''ection ''" t] by (simp add: js_def)
    with assms canon_space show False by blast
  qed
  then show ?thesis by (simp only: ends_then_litCI option.case)
qed

theorem rxSection_matchSection: "firstEnd rxSection s = matchSection s"
proof (cases s)
  case Nil
  then show ?thesis by (simp add: rxSection_def ends_then_unit firstEnd_def firstOf_def matchSection_def)
next
  case (Cons c r)
  let ?w = "length (takeWhile isSpace r)"
  let ?r1 = "drop ?w r"
  let ?q = "\<lambda>c. c \<noteq> (41::nat) \<and> c \<noteq> 10"
  let ?B = "Then (litCI (js ''Section '')) (many1 (Unit ?q))"
  have a: "ends (Then (Star (Unit isSpace)) ?B) r = map (\<lambda>m. ?w + m) (ends ?B ?r1)"
    by (rule ends_then_star) (rule section_after_space)
  have b: "ends ?B ?r1 =
     (case matchPhrase (js ''Section '') ?r1 of None \<Rightarrow> []
      | Some p \<Rightarrow> map (\<lambda>m. p + m) (rev [1..<Suc (length (takeWhile ?q (drop p ?r1)))]))"
    by (simp only: ends_then_litCI ends_plus_unit)
  have s: "ends rxSection s = (if c = 44 then map Suc (ends (Then (Star (Unit isSpace)) ?B) r) else [])"
    unfolding rxSection_def ends_then_unit using Cons by simp
  show ?thesis
  proof (cases "c = 44")
    case False
    with s Cons show ?thesis by (simp add: firstEnd_def firstOf_def matchSection_def)
  next
    case True
    show ?thesis
    proof (cases "matchPhrase (js ''Section '') ?r1")
      case None
      with s a b True Cons show ?thesis by (simp add: firstEnd_def firstOf_def matchSection_def Let_def)
    next
      case (Some p)
      let ?b = "takeWhile ?q (drop p ?r1)"
      show ?thesis
      proof (cases "?b = []")
        case True
        with s a b \<open>c = 44\<close> Some Cons show ?thesis
          by (simp add: firstEnd_def firstOf_def matchSection_def Let_def)
      next
        case False
        then have "rev [1..<Suc (length ?b)] = length ?b # rev [1..<length ?b]"
          by (simp add: Suc_leI)
        with s a b \<open>c = 44\<close> Some Cons False show ?thesis
          by (simp add: firstEnd_def firstOf_def matchSection_def Let_def del: upt_Suc)
      qed
    qed
  qed
qed

lemma firstOf_map: "firstOf (map f ns) = map_option f (firstOf ns)"
  by (cases ns) (simp_all add: firstOf_def)

lemma firstOf_append: "firstOf (ms @ ns) = (case firstOf ms of None \<Rightarrow> firstOf ns | Some n \<Rightarrow> Some n)"
  by (cases ms) (simp_all add: firstOf_def)

lemma concat_map_single:
  assumes "distinct xs" and "\<And>x. x \<in> set xs \<Longrightarrow> x \<noteq> y \<Longrightarrow> f x = []"
  shows "concat (map f xs) = (if y \<in> set xs then f y else [])"
  using assms
proof (induction xs)
  case Nil
  then show ?case by simp
next
  case (Cons x xs)
  show ?case
  proof (cases "x = y")
    case True
    with Cons.prems have "concat (map f xs) = []"
      by (intro concat_map_all_Nil) auto
    with True show ?thesis by simp
  next
    case False
    with Cons.prems have "f x = []" by simp
    moreover from Cons have "concat (map f xs) = (if y \<in> set xs then f y else [])" by simp
    ultimately show ?thesis using False by simp
  qed
qed

lemma takeWhile_region_nth:
  assumes "n < length (takeWhile p s)"
  shows "p (s ! n)"
proof -
  from assms have "takeWhile p s ! n = s ! n" by (rule takeWhile_nth)
  moreover from assms have "p (takeWhile p s ! n)" using nth_mem set_takeWhileD by metis
  ultimately show ?thesis by simp
qed

lemma canon_fixed: "canon c = 32 \<Longrightarrow> c = 32" "canon c = 45 \<Longrightarrow> c = 45"
  by (auto simp: canon_def split: if_splits)

lemma page_position:
  assumes m: "matchPhrase (js '' - Page '') (drop n r) \<noteq> None"
    and le: "n \<le> length (takeWhile (\<lambda>x. x \<noteq> 45) r)"
  shows "Suc n = length (takeWhile (\<lambda>x. x \<noteq> 45) r)"
proof -
  let ?p = "\<lambda>x. x \<noteq> (45::nat)"
  let ?a = "length (takeWhile ?p r)"
  from m have "1 < length (drop n r) \<and> canon (drop n r ! 0) = canon 32 \<and> canon (drop n r ! 1) = canon 45"
    using matchPhrase_Cons2[of 32 45 "js '' Page ''" "drop n r"] by (simp add: js_def)
  then have c: "1 < length (drop n r)" "canon (drop n r ! 0) = 32" "canon (drop n r ! 1) = 45"
    by (simp_all add: canon_def)
  from c(1) have len: "Suc n < length r" by simp
  from canon_fixed(1)[OF c(2)] len have sp: "r ! n = 32" by simp
  from canon_fixed(2)[OF c(3)] len have hy: "r ! Suc n = 45" by simp
  have "\<not> Suc n < ?a"
  proof
    assume l: "Suc n < ?a"
    from takeWhile_region_nth[OF this] hy show False by simp
  qed
  moreover have "n \<noteq> ?a"
  proof
    assume e: "n = ?a"
    with len have "?a < length r" by simp
    then have "\<not> ?p (r ! ?a)" by (rule nth_length_takeWhile)
    with e sp show False by simp
  qed
  ultimately show ?thesis using le by arith
qed

lemma ends_keyword:
  "ends (Or (litCI (js ''Refer to'')) (Or (litCI (js ''See'')) (litCI (js ''For'')))) s =
     (case matchKeyword s of None \<Rightarrow> [] | Some k \<Rightarrow> [k])"
proof -
  have r: "matchPhrase (js ''Refer to'') s \<noteq> None \<Longrightarrow> canon (hd s) = canon 82"
    using matchPhrase_Cons[of 82 "js ''efer to''" s] by (simp add: js_def)
  have e: "matchPhrase (js ''See'') s \<noteq> None \<Longrightarrow> canon (hd s) = canon 83"
    using matchPhrase_Cons[of 83 "js ''ee''" s] by (simp add: js_def)
  have f: "matchPhrase (js ''For'') s \<noteq> None \<Longrightarrow> canon (hd s) = canon 70"
    using matchPhrase_Cons[of 70 "js ''or''" s] by (simp add: js_def)
  have c: "canon 82 \<noteq> canon 83" "canon 82 \<noteq> canon 70" "canon 83 \<noteq> canon 70"
    by (simp_all add: canon_def)
  show ?thesis
    using r e f c
    by (cases "matchPhrase (js ''Refer to'') s"; cases "matchPhrase (js ''See'') s";
        cases "matchPhrase (js ''For'') s")
       (simp_all add: ends.simps(4) ends_litCI matchKeyword_def)
qed

lemma firstEnd_page_number:
  "firstOf (ends (Then (many1 (Unit isDigit)) (optional rxSection)) t) =
     (let d = takeWhile isDigit t in
      if d = [] then None
      else (case matchSection (drop (length d) t) of
              None \<Rightarrow> Some (length d) | Some q \<Rightarrow> Some (length d + q)))"
proof (cases "takeWhile isDigit t = []")
  case True
  then show ?thesis by (simp add: ends.simps(3) ends_plus_unit firstOf_def)
next
  case False
  let ?k = "length (takeWhile isDigit t)"
  from False have "rev [1..<Suc ?k] = ?k # rev [1..<?k]" by (simp add: Suc_leI)
  then have "firstOf (ends (Then (many1 (Unit isDigit)) (optional rxSection)) t) =
       map_option (\<lambda>m. ?k + m) (firstOf (ends rxSection (drop ?k t) @ [0]))"
    by (simp add: ends.simps(3) ends_plus_unit ends_opt firstOf_append firstOf_map[symmetric]
          del: upt_Suc) (simp add: firstOf_def split: list.splits)
  also have "firstOf (ends rxSection (drop ?k t) @ [0]) =
       (case matchSection (drop ?k t) of None \<Rightarrow> Some 0 | Some q \<Rightarrow> Some q)"
    using rxSection_matchSection[of "drop ?k t"]
    by (simp add: firstOf_append firstEnd_def) (simp add: firstOf_def split: option.splits)
  finally show ?thesis using False by (simp add: Let_def split: option.splits)
qed

theorem rxLink_matchLink: "firstEnd rxLink s = matchLink s"
proof (cases "matchKeyword s")
  case None
  then show ?thesis
    by (simp add: firstEnd_def rxLink_def ends.simps(3)[of "Or _ _"] ends_keyword matchLink_def firstOf_def)
next
  case (Some k)
  let ?p = "\<lambda>x. x \<noteq> (45::nat)"
  let ?r = "drop k s"
  let ?a = "length (takeWhile ?p ?r)"
  let ?D = "Then (many1 (Unit isDigit)) (optional rxSection)"
  let ?C = "Then (litCI (js '' - Page '')) ?D"
  let ?T = "Then (many1 (Unit ?p)) ?C"
  let ?f = "\<lambda>n. map (\<lambda>m. n + m) (ends ?C (drop n ?r))"
  have top: "ends rxLink s = map (\<lambda>m. k + m) (ends ?T ?r)"
    using Some by (simp add: rxLink_def ends.simps(3)[of "Or _ _"] ends_keyword)
  have "ends ?T ?r = concat (map ?f (rev [1..<Suc ?a]))"
    by (simp only: ends.simps(3)[of "many1 _"] ends_plus_unit)
  also have "\<dots> = (if ?a - 1 \<in> set (rev [1..<Suc ?a]) then ?f (?a - 1) else [])"
  proof (rule concat_map_single)
    show "distinct (rev [1..<Suc ?a])" by simp
    fix n assume n: "n \<in> set (rev [1..<Suc ?a])" "n \<noteq> ?a - 1"
    then have "n \<le> ?a" by auto
    with page_position[of n ?r] n(2) have "matchPhrase (js '' - Page '') (drop n ?r) = None"
      by (cases "matchPhrase (js '' - Page '') (drop n ?r)") auto
    then show "?f n = []" by (simp add: ends_then_litCI)
  qed
  also have "\<dots> = (if ?a < 2 then [] else ?f (?a - 1))" by auto
  finally have T: "ends ?T ?r = (if ?a < 2 then [] else ?f (?a - 1))" .
  show ?thesis
  proof (cases "?a < 2")
    case True
    with top T Some show ?thesis by (simp add: firstEnd_def firstOf_def matchLink_def Let_def)
  next
    case False
    let ?r1 = "drop (?a - 1) ?r"
    show ?thesis
    proof (cases "matchPhrase (js '' - Page '') ?r1")
      case None
      then have "ends ?C ?r1 = []" by (simp add: ends_then_litCI)
      with top T False Some None show ?thesis
        by (simp add: firstEnd_def firstOf_def matchLink_def Let_def)
    next
      case pg: (Some p)
      then have "ends ?C ?r1 = map (\<lambda>m. p + m) (ends ?D (drop p ?r1))"
        by (simp add: ends_then_litCI)
      with top T False have "firstEnd rxLink s =
          map_option (\<lambda>m. k + m) (map_option (\<lambda>m. (?a - 1) + m) (map_option (\<lambda>m. p + m)
             (firstOf (ends ?D (drop p ?r1)))))"
        by (simp only: firstEnd_def firstOf_map if_False)
      then show ?thesis using Some pg False
        by (simp only: firstEnd_page_number)
           (simp add: matchLink_def Let_def add.assoc split: option.splits)
    qed
  qed
qed


section \<open>Matching reference markers\<close>

lemma markerTail_hd: "markerTail = dagger # tl markerTail"
  by (simp add: markerTail_def)

lemma length_markerTail: "length markerTail = 8"
  by (simp add: markerTail_def js_def)

lemma takeWhile_code:
  "dagger \<notin> set c \<Longrightarrow> takeWhile (\<lambda>x. x \<noteq> dagger) (c @ markerTail @ rest) = c"
  by (induction c) (simp_all add: markerTail_def)

lemma matchMarker_marker:
  "validCode c \<Longrightarrow> matchMarker (marker c @ rest) = Some (length (marker c))"
  by (simp add: matchMarker_def marker_def validCode_def takeWhile_code Let_def)

lemma matchMarker_SomeD:
  assumes "matchMarker s = Some n"
  shows "\<exists>c rest. validCode c \<and> s = marker c @ rest \<and> n = length (marker c)"
proof -
  from assms obtain r where s: "s = lbr # r"
    by (auto simp: matchMarker_def split: list.splits if_splits)
  define c where "c = takeWhile (\<lambda>x. x \<noteq> dagger) r"
  from assms s have c: "c \<noteq> []" and p: "prefix markerTail (drop (length c) r)"
    and n: "n = 1 + length c + length markerTail"
    by (auto simp: matchMarker_def Let_def c_def split: if_splits)
  from p obtain rest where rest: "drop (length c) r = markerTail @ rest"
    by (auto simp: prefix_def)
  have "r = c @ drop (length c) r"
    unfolding c_def by (metis takeWhile_dropWhile_id dropWhile_eq_drop)
  with rest have "r = c @ markerTail @ rest" by simp
  moreover have "dagger \<notin> set c"
    unfolding c_def by (auto dest: set_takeWhileD)
  ultimately show ?thesis using s c n
    by (intro exI[of _ c] exI[of _ rest]) (simp add: validCode_def marker_def)
qed

lemma matchMarker_iff:
  "matchMarker s \<noteq> None \<longleftrightarrow> (\<exists>c rest. validCode c \<and> s = marker c @ rest)"
  using matchMarker_SomeD matchMarker_marker by fastforce

lemma repeatMatch_None: "m s = None \<Longrightarrow> repeatMatch m s = 0"
  by (cases s) simp_all

lemma repeatMatch_step:
  "ys \<noteq> [] \<Longrightarrow> m (ys @ rest) = Some (length ys) \<Longrightarrow>
   repeatMatch m (ys @ rest) = length ys + repeatMatch m rest"
  by (cases ys) simp_all

lemma scan_hit:
  "ys \<noteq> [] \<Longrightarrow> m (ys @ rest) = Some (length ys) \<Longrightarrow>
   scan m (ys @ rest) = Hit ys # scan m rest"
  by (cases ys) simp_all

lemma marker_nonempty: "marker c \<noteq> []"
  by (simp add: marker_def)

lemma repeatMatch_markers:
  assumes "list_all validCode codes" and "matchMarker post = None"
  shows "repeatMatch matchMarker (concat (map marker codes) @ post) = length (concat (map marker codes))"
  using assms
  by (induction codes)
     (simp_all add: repeatMatch_None repeatMatch_step marker_nonempty matchMarker_marker)

lemma run_nonempty: "codes \<noteq> [] \<Longrightarrow> concat (map marker codes) \<noteq> []"
  by (cases codes) (simp_all add: marker_nonempty)

lemma matchMarkers_run:
  assumes "codes \<noteq> []" and "list_all validCode codes" and "matchMarker post = None"
  shows "matchMarkers (concat (map marker codes) @ post) = Some (length (concat (map marker codes)))"
proof -
  have "repeatMatch matchMarker (concat (map marker codes) @ post) = length (concat (map marker codes))"
    using assms(2,3) by (rule repeatMatch_markers)
  moreover have "length (concat (map marker codes)) \<noteq> 0"
    using run_nonempty[OF assms(1)] by simp
  ultimately show ?thesis by (simp add: matchMarkers_def split: nat.splits)
qed

lemma scan_run:
  assumes "codes \<noteq> []" and "list_all validCode codes" and "matchMarker post = None"
  shows "scan matchMarkers (concat (map marker codes) @ post)
         = Hit (concat (map marker codes)) # scan matchMarkers post"
  using run_nonempty[OF assms(1)] matchMarkers_run[OF assms] by (rule scan_hit)

lemma scan_markers:
  "list_all validCode codes \<Longrightarrow>
   scan matchMarker (concat (map marker codes)) = map (\<lambda>c. Hit (marker c)) codes"
proof (induction codes)
  case Nil
  show ?case by (simp add: matchMarker_def)
next
  case (Cons c codes)
  then show ?case
    by (simp add: scan_hit marker_nonempty matchMarker_marker del: scan.simps)
qed

lemma hits_map_Hit: "hits (map (\<lambda>c. Hit (f c)) xs) = map f xs"
  by (induction xs) simp_all

lemma refCodeOf_marker: "validCode c \<Longrightarrow> refCodeOf (marker c) = c"
  using takeWhile_code[of c "[]"] by (simp add: refCodeOf_def marker_def validCode_def)

lemma execAll_run:
  assumes "list_all validCode codes"
  shows "execAll (concat (map marker codes)) = codes"
proof -
  from assms have "map (\<lambda>c. refCodeOf (marker c)) codes = codes"
    by (induction codes) (simp_all add: refCodeOf_marker)
  then show ?thesis
    by (simp add: execAll_def scan_markers[OF assms] hits_map_Hit comp_def)
qed

lemma indexOf_ge: "- 1 \<le> indexOf xs x"
  by (induction xs) (auto simp: Let_def)

lemma indexOf_mem: "x \<in> set xs \<Longrightarrow> 0 \<le> indexOf xs x"
  by (induction xs) (auto simp: Let_def)

lemma indexOf_notin: "x \<notin> set xs \<Longrightarrow> indexOf xs x = - 1"
  by (induction xs) (auto simp: Let_def)

lemma indexOf_append: "x \<in> set xs \<Longrightarrow> indexOf (xs @ ys) x = indexOf xs x"
  by (induction xs) (auto simp: Let_def)

lemma indexOf_nth:
  "x \<in> set xs \<Longrightarrow> nat (indexOf xs x) < length xs \<and> xs ! nat (indexOf xs x) = x"
proof (induction xs)
  case Nil
  then show ?case by simp
next
  case (Cons y ys)
  show ?case
  proof (cases "y = x")
    case True
    then show ?thesis by simp
  next
    case False
    with Cons.prems have m: "x \<in> set ys" by simp
    from indexOf_mem[OF m] have "nat (indexOf ys x + 1) = Suc (nat (indexOf ys x))" by simp
    with Cons.IH[OF m] False indexOf_mem[OF m] show ?thesis by (simp add: Let_def)
  qed
qed

lemma foldl_appendNew_prefix: "\<exists>zs. foldl appendNew xs ds = xs @ zs"
proof (induction ds arbitrary: xs)
  case Nil
  show ?case by simp
next
  case (Cons d ds)
  from Cons[of "appendNew xs d"] show ?case by (auto simp: appendNew_def)
qed

lemma indexOf_foldl_appendNew:
  "x \<in> set xs \<Longrightarrow> indexOf (foldl appendNew xs ds) x = indexOf xs x"
  using foldl_appendNew_prefix[of xs ds] by (auto simp: indexOf_append)

lemma set_foldl_appendNew: "set (foldl appendNew xs ds) = set xs \<union> set ds"
  by (induction ds arbitrary: xs) (auto simp: appendNew_def)

lemma distinct_foldl_appendNew: "distinct xs \<Longrightarrow> distinct (foldl appendNew xs ds)"
  by (induction ds arbitrary: xs) (auto simp: appendNew_def)

lemma refStep_eq:
  "refStep (col, idx) c =
     (appendNew col (resolve c),
      appendNew idx (indexOf (appendNew col (resolve c)) (resolve c) + 1))"
  by (simp add: refStep_def appendNew_def Let_def)

lemma foldl_refStep:
  "\<exists>idx'. foldl refStep (col, idx) codes = (foldl appendNew col (map resolve codes), idx')
     \<and> set idx' = set idx \<union> (\<lambda>c. indexOf (foldl appendNew col (map resolve codes)) (resolve c) + 1) ` set codes
     \<and> (distinct idx \<longrightarrow> distinct idx')"
proof (induction codes arbitrary: col idx)
  case Nil
  show ?case by simp
next
  case (Cons c codes)
  let ?col1 = "appendNew col (resolve c)"
  let ?idx1 = "appendNew idx (indexOf ?col1 (resolve c) + 1)"
  let ?colF = "foldl appendNew ?col1 (map resolve codes)"
  from Cons[of ?col1 ?idx1] obtain idx' where
    f: "foldl refStep (?col1, ?idx1) codes = (?colF, idx')" and
    s: "set idx' = set ?idx1 \<union> (\<lambda>c. indexOf ?colF (resolve c) + 1) ` set codes" and
    d: "distinct ?idx1 \<longrightarrow> distinct idx'" by blast
  have "resolve c \<in> set ?col1" by (simp add: appendNew_def)
  then have i: "indexOf ?colF (resolve c) = indexOf ?col1 (resolve c)"
    by (rule indexOf_foldl_appendNew)
  have s1: "set ?idx1 = insert (indexOf ?col1 (resolve c) + 1) (set idx)"
    by (auto simp: appendNew_def)
  have d1: "distinct idx \<longrightarrow> distinct ?idx1" by (simp add: appendNew_def)
  have a: "foldl refStep (col, idx) (c # codes) = (foldl appendNew col (map resolve (c # codes)), idx')"
    using f by (simp add: refStep_eq)
  have b: "set idx' = set idx \<union>
      (\<lambda>x. indexOf (foldl appendNew col (map resolve (c # codes))) (resolve x) + 1) ` set (c # codes)"
    using s s1 i by auto
  have c: "distinct idx \<longrightarrow> distinct idx'"
    using d d1 by blast
  from a b c show ?case by blast
qed

lemma supBlock_join:
  "supBlock xs = js ''<sup>['' @ joinWith (js '','') (map showInt xs) @ js '']</sup>''"
  by (cases xs) (auto simp: supBlock_def)

lemma replacer_eq:
  "replacer t col =
    (let col' = foldl appendNew col (map resolve (execAll t)) in
     (supBlock (sort (remdups (map (\<lambda>c. indexOf col' (resolve c) + 1) (execAll t)))), col'))"
proof -
  let ?col' = "foldl appendNew col (map resolve (execAll t))"
  from foldl_refStep[of col "[]" "execAll t"] obtain idx' where
    f: "foldl refStep (col, []) (execAll t) = (?col', idx')" and
    s: "set idx' = (\<lambda>c. indexOf ?col' (resolve c) + 1) ` set (execAll t)" and
    d: "distinct idx'" by auto
  have "sort idx' = sort (remdups (map (\<lambda>c. indexOf ?col' (resolve c) + 1) (execAll t)))"
    by (rule sorted_distinct_set_unique) (use s d in simp_all)
  then show ?thesis using f by (simp add: replacer_def Let_def)
qed

lemma matchMarkers_None: "matchMarker s = None \<Longrightarrow> matchMarkers s = None"
  by (simp add: matchMarkers_def repeatMatch_None)

lemma unify_Nil: "unifyConsecutiveReferences [] col = ([], col)"
  by (simp add: unifyConsecutiveReferences_def matchMarkers_def)

lemma unify_skip:
  "matchMarker (c # cs) = None \<Longrightarrow>
   unifyConsecutiveReferences (c # cs) col =
     (c # fst (unifyConsecutiveReferences cs col), snd (unifyConsecutiveReferences cs col))"
  by (simp add: unifyConsecutiveReferences_def matchMarkers_None split: prod.splits)

lemma unify_run:
  assumes "codes \<noteq> []" and "list_all validCode codes" and "matchMarker post = None"
  shows "unifyConsecutiveReferences (concat (map marker codes) @ post) col =
     (let col' = foldl appendNew col (map resolve codes);
          indices = sort (remdups (map (\<lambda>c. indexOf col' (resolve c) + 1) codes));
          rest = unifyConsecutiveReferences post col'
      in (js ''<sup>['' @ joinWith (js '','') (map showInt indices) @ js '']</sup>'' @ fst rest,
          snd rest))"
  by (simp add: unifyConsecutiveReferences_def scan_run[OF assms] replacer_eq
      execAll_run[OF assms(2)] supBlock_join Let_def split: prod.splits)

lemma matchMarker_other: "c \<noteq> lbr \<Longrightarrow> matchMarker (c # cs) = None"
  by (simp add: matchMarker_def)

lemma unify_plain_prefix:
  "lbr \<notin> set pre \<Longrightarrow>
   unifyConsecutiveReferences (pre @ s) col =
     (pre @ fst (unifyConsecutiveReferences s col), snd (unifyConsecutiveReferences s col))"
  by (induction pre) (simp_all add: unify_skip matchMarker_other)

lemma unify_plain: "lbr \<notin> set s \<Longrightarrow> unifyConsecutiveReferences s col = (s, col)"
  using unify_plain_prefix[of s "[]" col] by (simp add: unify_Nil)

lemma matchMarker_plain: "lbr \<notin> set s \<Longrightarrow> matchMarker s = None"
  by (cases s) (simp_all add: matchMarker_def)

lemma resolve_4_8: "resolve (js ''4:8'') = RefText (js ''Page 12, Section 4.8'')"
  by code_simp

lemma resolve_4_14: "resolve (js ''4:14'') = RefText (js ''Page 18, Section 2'')"
  by code_simp

lemma validCode_examples: "list_all validCode [js ''4:8'', js ''4:14'']"
  by code_simp

lemma unify_example:
  assumes "lbr \<notin> set pre" and "lbr \<notin> set post"
  shows "unifyConsecutiveReferences (pre @ marker (js ''4:8'') @ marker (js ''4:14'') @ post) [] =
     (pre @ js ''<sup>[1,2]</sup>'' @ post,
      [RefText (js ''Page 12, Section 4.8''), RefText (js ''Page 18, Section 2'')])"
proof -
  let ?col = "[RefText (js ''Page 12, Section 4.8''), RefText (js ''Page 18, Section 2'')]"
  have col: "foldl appendNew [] (map resolve [js ''4:8'', js ''4:14'']) = ?col"
    by (simp add: resolve_4_8 resolve_4_14) code_simp
  have idx: "sort (remdups (map (\<lambda>c. indexOf ?col (resolve c) + 1) [js ''4:8'', js ''4:14''])) = [1, 2]"
    by (simp add: resolve_4_8 resolve_4_14) code_simp
  have blk: "js ''<sup>['' @ showInt 1 @ js '','' @ showInt 2 @ js '']</sup>'' @ post
      = js ''<sup>[1,2]</sup>'' @ post"
    by (simp add: js_def showInt_def)
  have "unifyConsecutiveReferences (concat (map marker [js ''4:8'', js ''4:14'']) @ post) [] =
        (js ''<sup>[1,2]</sup>'' @ post, ?col)"
    using unify_run[of "[js ''4:8'', js ''4:14'']" post "[]", OF _ validCode_examples matchMarker_plain[OF assms(2)]]
    unfolding col idx Let_def by (simp add: unify_plain[OF assms(2)] blk)
  then show ?thesis using unify_plain_prefix[OF assms(1)] by simp
qed

lemma run_decompose:
  "matchMarker s \<noteq> None \<Longrightarrow>
   \<exists>codes post. codes \<noteq> [] \<and> list_all validCode codes \<and> matchMarker post = None
      \<and> s = concat (map marker codes) @ post"
proof (induction "length s" arbitrary: s rule: less_induct)
  case less
  from less.prems obtain n where "matchMarker s = Some n" by auto
  from matchMarker_SomeD[OF this] obtain c rest where
    c: "validCode c" and s: "s = marker c @ rest" by blast
  show ?case
  proof (cases "matchMarker rest")
    case None
    with c s show ?thesis by (intro exI[of _ "[c]"] exI[of _ rest]) simp
  next
    case (Some k)
    have "length rest < length s" using s by (simp add: marker_def)
    from less.hyps[OF this] Some obtain codes post where
      "codes \<noteq> []" "list_all validCode codes" "matchMarker post = None"
      "rest = concat (map marker codes) @ post" by auto
    with c s show ?thesis by (intro exI[of _ "c # codes"] exI[of _ post]) simp
  qed
qed


section \<open>Runs of reference markers\<close>

lemma replaceAll_noMatch: "noMatch m s \<Longrightarrow> replaceAll m r s = s"
  by (induction s) (simp_all add: replaceAll_def)

lemma stripMarkdown_plain: "noMarkdown text \<Longrightarrow> stripMarkdown text = text"
  by (simp add: noMarkdown_def stripMarkdown_def replaceAll_noMatch)

lemma boldHeadings_plain: "noHeadings text \<Longrightarrow> boldHeadings text = text"
  by (simp add: noHeadings_def boldHeadings_def boldHeading_def replaceAll_noMatch)

lemma sanitize_pipeline:
  "sanitizeAssistantResponse text previous =
     (trim (linkReferences (fst (unifyConsecutiveReferences (boldHeadings (stripMarkdown text)) []))),
      snd (unifyConsecutiveReferences (boldHeadings (stripMarkdown text)) []))"
  by (simp add: sanitizeAssistantResponse_def split: prod.splits)

lemma sanitize_example:
  assumes "lbr \<notin> set pre" and "lbr \<notin> set suf"
    and "noMarkdown (pre @ marker (js ''4:8'') @ marker (js ''4:14'') @ suf)"
    and "noHeadings (pre @ marker (js ''4:8'') @ marker (js ''4:14'') @ suf)"
    and "noMatch matchLink (pre @ js ''<sup>[1,2]</sup>'' @ suf)"
  shows "sanitizeAssistantResponse (pre @ marker (js ''4:8'') @ marker (js ''4:14'') @ suf) previous =
     (trim (pre @ js ''<sup>[1,2]</sup>'' @ suf),
      [RefText (js ''Page 12, Section 4.8''), RefText (js ''Page 18, Section 2'')])"
proof -
  let ?text = "pre @ marker (js ''4:8'') @ marker (js ''4:14'') @ suf"
  have "boldHeadings (stripMarkdown ?text) = ?text"
    using assms(3,4) by (simp add: stripMarkdown_plain boldHeadings_plain)
  moreover have "linkReferences (pre @ js ''<sup>[1,2]</sup>'' @ suf) = pre @ js ''<sup>[1,2]</sup>'' @ suf"
    using assms(5) by (simp add: linkReferences_def replaceAll_noMatch)
  ultimately show ?thesis
    by (simp only: sanitize_pipeline unify_example[OF assms(1,2)] fst_conv snd_conv)
qed

text \<open>
  C1, as stated: in particular, for an input that contains the markers of 4:8 and 4:14 next
  to each other, that run becomes \<^verbatim>\<open><sup>[1,2]</sup>\<close> and collectedReferences ends as
  "Page 12, Section 4.8", "Page 18, Section 2". It fails when another marker stands in
  front: the numbers count from the first citation of the text.
\<close>

theorem runs_example_counterexample:
  "sanitizeAssistantResponse
     (marker (js ''9:9'') @ js '' and '' @ marker (js ''4:8'') @ marker (js ''4:14'')) []
   = (js ''<sup>[1]</sup> and <sup>[2,3]</sup>'',
      [RefText (js ''FDA Guidance''), RefText (js ''Page 12, Section 4.8''),
       RefText (js ''Page 18, Section 2'')])
   \<and> snd (sanitizeAssistantResponse
         (marker (js ''9:9'') @ js '' and '' @ marker (js ''4:8'') @ marker (js ''4:14'')) [])
     \<noteq> [RefText (js ''Page 12, Section 4.8''), RefText (js ''Page 18, Section 2'')]"
  by code_simp

text \<open>
  C1, amended. sanitizeAssistantResponse first removes the markdown and puts the headings
  in bold, then hands the text to unifyConsecutiveReferences with an empty
  collectedReferences, and links and trims what comes back. In the text it is handed,
  unifyConsecutiveReferences replaces each maximal run of one or more consecutive
  reference markers by one superscript block. A marker begins a text exactly when the text
  is the opening bracket, a code that is not empty and has no dagger,
  \<^verbatim>\<open>\<dagger>source\<close> and the closing bracket, followed by anything; such a text begins with a
  longest run of markers. Where the text begins with the markers of the codes \<open>codes\<close> and no
  further marker begins behind them, the run is replaced by \<^verbatim>\<open><sup>[\<close>, the
  comma-separated list of the deduplicated, ascending 1-based indices in the updated
  collectedReferences of the citations the codes resolve to, and \<^verbatim>\<open>]</sup>\<close>;
  collectedReferences is extended by the citations not seen before, in order, and the
  function goes on behind the run. Where no marker begins, the code unit is kept and the
  function goes on behind it; on the empty text nothing happens. These cases cover every
  text. In particular a text in which the markers of 4:8 and 4:14 stand next to each
  other, with no opening marker bracket elsewhere, gets \<^verbatim>\<open><sup>[1,2]</sup>\<close> for that run
  and leaves collectedReferences as "Page 12, Section 4.8", "Page 18, Section 2"; when the
  text has, besides, no markdown, no heading and no reference phrase,
  sanitizeAssistantResponse returns it with that block in the place of the run, trimmed.
\<close>

theorem unify_replaces_runs:
  "sanitizeAssistantResponse input previous =
     (trim (linkReferences (fst (unifyConsecutiveReferences (boldHeadings (stripMarkdown input)) []))),
      snd (unifyConsecutiveReferences (boldHeadings (stripMarkdown input)) []))
   \<and> (matchMarker text \<noteq> None \<longleftrightarrow> (\<exists>c rest. validCode c \<and> text = marker c @ rest))
   \<and> (matchMarker text \<noteq> None \<longrightarrow>
      (\<exists>codes' post'. codes' \<noteq> [] \<and> list_all validCode codes' \<and> matchMarker post' = None
         \<and> text = concat (map marker codes') @ post'))
   \<and> (codes \<noteq> [] \<and> list_all validCode codes \<and> matchMarker post = None \<longrightarrow>
      unifyConsecutiveReferences (concat (map marker codes) @ post) collected =
        (let collected' = foldl appendNew collected (map resolve codes);
             indices = sort (remdups (map (\<lambda>c. indexOf collected' (resolve c) + 1) codes));
             rest = unifyConsecutiveReferences post collected'
         in (js ''<sup>['' @ joinWith (js '','') (map showInt indices) @ js '']</sup>'' @ fst rest,
             snd rest)))
   \<and> (matchMarker (c # cs) = None \<longrightarrow>
      unifyConsecutiveReferences (c # cs) collected =
        (c # fst (unifyConsecutiveReferences cs collected),
         snd (unifyConsecutiveReferences cs collected)))
   \<and> unifyConsecutiveReferences [] collected = ([], collected)
   \<and> (lbr \<notin> set pre \<and> lbr \<notin> set suf \<longrightarrow>
      unifyConsecutiveReferences (pre @ marker (js ''4:8'') @ marker (js ''4:14'') @ suf) [] =
        (pre @ js ''<sup>[1,2]</sup>'' @ suf,
         [RefText (js ''Page 12, Section 4.8''), RefText (js ''Page 18, Section 2'')]))
   \<and> (lbr \<notin> set pre \<and> lbr \<notin> set suf
       \<and> noMarkdown (pre @ marker (js ''4:8'') @ marker (js ''4:14'') @ suf)
       \<and> noHeadings (pre @ marker (js ''4:8'') @ marker (js ''4:14'') @ suf)
       \<and> noMatch matchLink (pre @ js ''<sup>[1,2]</sup>'' @ suf) \<longrightarrow>
      sanitizeAssistantResponse (pre @ marker (js ''4:8'') @ marker (js ''4:14'') @ suf) previous =
        (trim (pre @ js ''<sup>[1,2]</sup>'' @ suf),
         [RefText (js ''Page 12, Section 4.8''), RefText (js ''Page 18, Section 2'')]))"
proof (intro conjI impI)
  show "sanitizeAssistantResponse input previous =
     (trim (linkReferences (fst (unifyConsecutiveReferences (boldHeadings (stripMarkdown input)) []))),
      snd (unifyConsecutiveReferences (boldHeadings (stripMarkdown input)) []))"
    by (rule sanitize_pipeline)
next
  show "matchMarker text \<noteq> None \<longleftrightarrow> (\<exists>c rest. validCode c \<and> text = marker c @ rest)"
    by (rule matchMarker_iff)
next
  assume "matchMarker text \<noteq> None"
  then show "\<exists>codes' post'. codes' \<noteq> [] \<and> list_all validCode codes' \<and> matchMarker post' = None
         \<and> text = concat (map marker codes') @ post'"
    by (rule run_decompose)
next
  assume "codes \<noteq> [] \<and> list_all validCode codes \<and> matchMarker post = None"
  then show "unifyConsecutiveReferences (concat (map marker codes) @ post) collected =
        (let collected' = foldl appendNew collected (map resolve codes);
             indices = sort (remdups (map (\<lambda>c. indexOf collected' (resolve c) + 1) codes));
             rest = unifyConsecutiveReferences post collected'
         in (js ''<sup>['' @ joinWith (js '','') (map showInt indices) @ js '']</sup>'' @ fst rest,
             snd rest))"
    using unify_run[of codes post collected] by blast
next
  assume "matchMarker (c # cs) = None"
  then show "unifyConsecutiveReferences (c # cs) collected =
        (c # fst (unifyConsecutiveReferences cs collected),
         snd (unifyConsecutiveReferences cs collected))"
    by (rule unify_skip)
next
  show "unifyConsecutiveReferences [] collected = ([], collected)"
    by (rule unify_Nil)
next
  assume "lbr \<notin> set pre \<and> lbr \<notin> set suf"
  then show "unifyConsecutiveReferences (pre @ marker (js ''4:8'') @ marker (js ''4:14'') @ suf) [] =
        (pre @ js ''<sup>[1,2]</sup>'' @ suf,
         [RefText (js ''Page 12, Section 4.8''), RefText (js ''Page 18, Section 2'')])"
    using unify_example[of pre suf] by blast
next
  assume "lbr \<notin> set pre \<and> lbr \<notin> set suf
       \<and> noMarkdown (pre @ marker (js ''4:8'') @ marker (js ''4:14'') @ suf)
       \<and> noHeadings (pre @ marker (js ''4:8'') @ marker (js ''4:14'') @ suf)
       \<and> noMatch matchLink (pre @ js ''<sup>[1,2]</sup>'' @ suf)"
  then show "sanitizeAssistantResponse (pre @ marker (js ''4:8'') @ marker (js ''4:14'') @ suf) previous =
        (trim (pre @ js ''<sup>[1,2]</sup>'' @ suf),
         [RefText (js ''Page 12, Section 4.8''), RefText (js ''Page 18, Section 2'')])"
    using sanitize_example[of pre suf previous] by blast
qed

theorem unify_replaces_runs_witness:
  "[js ''4:14'', js ''9:9'', js ''4:14''] \<noteq> [] \<and> list_all validCode [js ''4:14'', js ''9:9'', js ''4:14'']
   \<and> matchMarker (js '' and '' @ marker (js ''4:8'')) = None
   \<and> unifyConsecutiveReferences
        (concat (map marker [js ''4:14'', js ''9:9'', js ''4:14'']) @ js '' and '' @ marker (js ''4:8''))
        [RefText (js ''FDA Guidance'')]
      = (js ''<sup>[1,2]</sup> and <sup>[3]</sup>'',
         [RefText (js ''FDA Guidance''), RefText (js ''Page 18, Section 2''),
          RefText (js ''Page 12, Section 4.8'')])
   \<and> matchMarker (js ''a'') = None
   \<and> unifyConsecutiveReferences (js ''a'') [RefText (js ''FDA Guidance'')]
      = (js ''a'', [RefText (js ''FDA Guidance'')])
   \<and> lbr \<notin> set (js ''Results '') \<and> lbr \<notin> set (js '' end '')
   \<and> unifyConsecutiveReferences
        (js ''Results '' @ marker (js ''4:8'') @ marker (js ''4:14'') @ js '' end '') []
      = (js ''Results <sup>[1,2]</sup> end '',
         [RefText (js ''Page 12, Section 4.8''), RefText (js ''Page 18, Section 2'')])
   \<and> noMarkdown (js ''Results '' @ marker (js ''4:8'') @ marker (js ''4:14'') @ js '' end '')
   \<and> noHeadings (js ''Results '' @ marker (js ''4:8'') @ marker (js ''4:14'') @ js '' end '')
   \<and> noMatch matchLink (js ''Results '' @ js ''<sup>[1,2]</sup>'' @ js '' end '')
   \<and> sanitizeAssistantResponse
        (js ''Results '' @ marker (js ''4:8'') @ marker (js ''4:14'') @ js '' end '')
        [RefText (js ''stale'')]
      = (js ''Results <sup>[1,2]</sup> end'',
         [RefText (js ''Page 12, Section 4.8''), RefText (js ''Page 18, Section 2'')])"
proof -
  let ?codes = "[js ''4:14'', js ''9:9'', js ''4:14'']"
  let ?post = "js '' and '' @ marker (js ''4:8'')"
  let ?col = "[RefText (js ''FDA Guidance'')]"
  let ?pre = "js ''Results ''"
  let ?suf = "js '' end ''"
  have h1: "?codes \<noteq> [] \<and> list_all validCode ?codes \<and> matchMarker ?post = None"
    by code_simp
  have h2: "matchMarker (97 # []) = None"
    by code_simp
  have h3: "lbr \<notin> set ?pre \<and> lbr \<notin> set ?suf"
    by code_simp
  have h4: "noMarkdown (?pre @ marker (js ''4:8'') @ marker (js ''4:14'') @ ?suf)"
    "noHeadings (?pre @ marker (js ''4:8'') @ marker (js ''4:14'') @ ?suf)"
    "noMatch matchLink (?pre @ js ''<sup>[1,2]</sup>'' @ ?suf)"
    by code_simp+
  have e1: "(let collected' = foldl appendNew ?col (map resolve ?codes);
             indices = sort (remdups (map (\<lambda>c. indexOf collected' (resolve c) + 1) ?codes));
             rest = unifyConsecutiveReferences ?post collected'
         in (js ''<sup>['' @ joinWith (js '','') (map showInt indices) @ js '']</sup>'' @ fst rest,
             snd rest))
      = (js ''<sup>[1,2]</sup> and <sup>[3]</sup>'',
         [RefText (js ''FDA Guidance''), RefText (js ''Page 18, Section 2''),
          RefText (js ''Page 12, Section 4.8'')])"
    by code_simp
  have e2: "js ''a'' = 97 # []"
    "?pre @ js ''<sup>[1,2]</sup>'' @ ?suf = js ''Results <sup>[1,2]</sup> end ''"
    by (simp_all add: js_def)
  have e3: "trim (js ''Results <sup>[1,2]</sup> end '') = js ''Results <sup>[1,2]</sup> end''"
    by code_simp
  note T = unify_replaces_runs[where codes="?codes" and post="?post" and collected="?col" and c="97"
        and cs="[]" and pre="?pre" and suf="?suf" and previous="[RefText (js ''stale'')]"]
  from T[THEN conjunct2, THEN conjunct2, THEN conjunct2, THEN conjunct1] h1
  have 1: "unifyConsecutiveReferences (concat (map marker ?codes) @ ?post) ?col
      = (js ''<sup>[1,2]</sup> and <sup>[3]</sup>'',
         [RefText (js ''FDA Guidance''), RefText (js ''Page 18, Section 2''),
          RefText (js ''Page 12, Section 4.8'')])"
    unfolding e1 by blast
  from T[THEN conjunct2, THEN conjunct2, THEN conjunct2, THEN conjunct2, THEN conjunct1] h2
  have 2: "unifyConsecutiveReferences (js ''a'') ?col = (js ''a'', ?col)"
    unfolding e2 by (simp add: unify_Nil)
  from T[THEN conjunct2, THEN conjunct2, THEN conjunct2, THEN conjunct2, THEN conjunct2,
      THEN conjunct2, THEN conjunct1] h3
  have 3: "unifyConsecutiveReferences (?pre @ marker (js ''4:8'') @ marker (js ''4:14'') @ ?suf) []
      = (js ''Results <sup>[1,2]</sup> end '',
         [RefText (js ''Page 12, Section 4.8''), RefText (js ''Page 18, Section 2'')])"
    unfolding e2 by blast
  from T[THEN conjunct2, THEN conjunct2, THEN conjunct2, THEN conjunct2, THEN conjunct2,
      THEN conjunct2, THEN conjunct2] h3 h4
  have 4: "sanitizeAssistantResponse (?pre @ marker (js ''4:8'') @ marker (js ''4:14'') @ ?suf)
        [RefText (js ''stale'')]
      = (js ''Results <sup>[1,2]</sup> end'',
         [RefText (js ''Page 12, Section 4.8''), RefText (js ''Page 18, Section 2'')])"
    unfolding e2 e3 by blast
  have h2': "matchMarker (js ''a'') = None" using h2 unfolding e2 .
  from h1 have h1': "?codes \<noteq> []" "list_all validCode ?codes" "matchMarker ?post = None"
    by blast+
  from h3 have h3': "lbr \<notin> set ?pre" "lbr \<notin> set ?suf" by blast+
  show ?thesis
    by (intro conjI) (rule h1' 1 h2' 2 h3' 3 h4 4)+
qed

section \<open>First-seen numbering\<close>

lemma replacer_footnote:
  "replacer t col =
     (footnote (foldl appendNew col (map resolve (execAll t))) (execAll t),
      foldl appendNew col (map resolve (execAll t)))"
  by (simp add: replacer_eq footnote_def supBlock_join Let_def)

lemma footnote_stable:
  assumes "resolve ` set codes \<subseteq> set col"
  shows "footnote (foldl appendNew col ds) codes = footnote col codes"
proof -
  have h: "map (\<lambda>c. indexOf (foldl appendNew col ds) (resolve c) + 1) codes
        = map (\<lambda>c. indexOf col (resolve c) + 1) codes"
    using assms by (intro map_cong refl) (auto simp: indexOf_foldl_appendNew)
  show ?thesis unfolding footnote_def h by (rule refl)
qed

lemma allCodes_simps:
  "allCodes [] = []"
  "allCodes (Lit c # segs) = allCodes segs"
  "allCodes (Hit t # segs) = execAll t @ allCodes segs"
  by (simp_all add: allCodes_def)

lemma unifySegs_eq:
  "unifySegs segs col =
     (concat (map (substitute (\<lambda>t. footnote (foldl appendNew col (map resolve (allCodes segs))) (execAll t))) segs),
      foldl appendNew col (map resolve (allCodes segs)))"
proof (induction segs arbitrary: col)
  case Nil
  show ?case by (simp add: allCodes_simps)
next
  case (Cons sg segs)
  show ?case
  proof (cases sg)
    case (Lit c)
    then show ?thesis using Cons[of col] by (simp add: allCodes_simps)
  next
    case (Hit t)
    let ?col1 = "foldl appendNew col (map resolve (execAll t))"
    have "resolve ` set (execAll t) \<subseteq> set ?col1"
      by (auto simp: set_foldl_appendNew)
    then have "footnote (foldl appendNew ?col1 (map resolve (allCodes segs))) (execAll t)
               = footnote ?col1 (execAll t)"
      by (rule footnote_stable)
    then show ?thesis using Hit Cons[of ?col1]
      by (simp add: allCodes_simps replacer_footnote)
  qed
qed

lemma indexOf_valid:
  assumes "x \<in> set xs"
  shows "1 \<le> indexOf xs x + 1 \<and> indexOf xs x + 1 \<le> int (length xs)
         \<and> xs ! nat (indexOf xs x) = x"
  using indexOf_nth[OF assms] indexOf_mem[OF assms] by auto

text \<open>
  C2. After any call of sanitizeAssistantResponse, whatever collectedReferences held
  before, collectedReferences holds no citation twice: it is the list of the citations that
  the reference codes of the text resolve to, in the order in which they are first seen.
  Every superscript block of the result lists the positions that the citations of its run
  have in this final list, so an occurrence of a code whose citation is collected already,
  in the same run or in a later one, gets the number of the first occurrence; and each such
  number is a valid 1-based position of that citation.
\<close>

theorem collected_first_seen:
  "sanitizeAssistantResponse text previous = (out, collected) \<Longrightarrow>
   segs = scan matchMarkers (boldHeadings (stripMarkdown text)) \<Longrightarrow>
     distinct collected
     \<and> collected = foldl appendNew [] (map resolve (allCodes segs))
     \<and> out = trim (linkReferences (concat (map (substitute (\<lambda>t. footnote collected (execAll t))) segs)))
     \<and> (\<forall>c \<in> set (allCodes segs).
           1 \<le> indexOf collected (resolve c) + 1
         \<and> indexOf collected (resolve c) + 1 \<le> int (length collected)
         \<and> collected ! nat (indexOf collected (resolve c)) = resolve c)"
proof -
  assume s: "sanitizeAssistantResponse text previous = (out, collected)"
    and segs: "segs = scan matchMarkers (boldHeadings (stripMarkdown text))"
  let ?col = "foldl appendNew [] (map resolve (allCodes segs))"
  have e: "sanitizeAssistantResponse text previous =
      (trim (linkReferences (concat (map (substitute (\<lambda>t. footnote ?col (execAll t))) segs))), ?col)"
    unfolding segs
    by (simp add: sanitizeAssistantResponse_def unifyConsecutiveReferences_def unifySegs_eq)
  have c: "collected = ?col"
    using s unfolding e by (rule Pair_inject) (rule sym)
  have o: "out = trim (linkReferences (concat (map (substitute (\<lambda>t. footnote ?col (execAll t))) segs)))"
    using s unfolding e by (rule Pair_inject) (rule sym)
  have d: "distinct ?col" by (rule distinct_foldl_appendNew) simp
  have "\<forall>c \<in> set (allCodes segs). resolve c \<in> set ?col"
    by (simp add: set_foldl_appendNew)
  then have v: "\<forall>c \<in> set (allCodes segs).
           1 \<le> indexOf ?col (resolve c) + 1
         \<and> indexOf ?col (resolve c) + 1 \<le> int (length ?col)
         \<and> ?col ! nat (indexOf ?col (resolve c)) = resolve c"
    using indexOf_valid[of _ ?col] by blast
  show ?thesis unfolding c using d o[unfolded c] v by blast
qed


theorem collected_first_seen_witness:
  "sanitizeAssistantResponse
     (js ''A'' @ marker (js ''4:8'') @ js '' B'' @ marker (js ''9:9'') @ marker (js ''4:8'')
      @ js '' C'' @ marker (js ''7:7''))
     [RefText (js ''stale'')]
   = (js ''A<sup>[1]</sup> B<sup>[1,2]</sup> C<sup>[2]</sup>'',
      [RefText (js ''Page 12, Section 4.8''), RefText (js ''FDA Guidance'')])
   \<and> distinct [RefText (js ''Page 12, Section 4.8''), RefText (js ''FDA Guidance'')]
   \<and> [RefText (js ''Page 12, Section 4.8''), RefText (js ''FDA Guidance'')]
     = foldl appendNew [] (map resolve (allCodes (scan matchMarkers (boldHeadings (stripMarkdown
         (js ''A'' @ marker (js ''4:8'') @ js '' B'' @ marker (js ''9:9'') @ marker (js ''4:8'')
          @ js '' C'' @ marker (js ''7:7'')))))))
   \<and> js ''7:7'' \<in> set (allCodes (scan matchMarkers (boldHeadings (stripMarkdown
         (js ''A'' @ marker (js ''4:8'') @ js '' B'' @ marker (js ''9:9'') @ marker (js ''4:8'')
          @ js '' C'' @ marker (js ''7:7''))))))
   \<and> [RefText (js ''Page 12, Section 4.8''), RefText (js ''FDA Guidance'')]
         ! nat (indexOf [RefText (js ''Page 12, Section 4.8''), RefText (js ''FDA Guidance'')]
                  (resolve (js ''7:7''))) = resolve (js ''7:7'')"
proof -
  let ?text = "js ''A'' @ marker (js ''4:8'') @ js '' B'' @ marker (js ''9:9'') @ marker (js ''4:8'')
      @ js '' C'' @ marker (js ''7:7'')"
  have e: "sanitizeAssistantResponse ?text [RefText (js ''stale'')]
      = (js ''A<sup>[1]</sup> B<sup>[1,2]</sup> C<sup>[2]</sup>'',
         [RefText (js ''Page 12, Section 4.8''), RefText (js ''FDA Guidance'')])"
    by code_simp
  have m: "js ''7:7'' \<in> set (allCodes (scan matchMarkers (boldHeadings (stripMarkdown ?text))))"
    by code_simp
  from collected_first_seen[OF e refl] e m show ?thesis by blast
qed

section \<open>Codes that the table does not hold\<close>

text \<open>
  A code that is neither a key of the table nor the name of an inherited property
  resolves to the fallback text, so all such codes share one citation and one number.
\<close>

lemma resolve_unknown:
  "map_of referenceDetailsMap code = None \<Longrightarrow> code \<notin> set objectPrototypeKeys \<Longrightarrow>
   resolve code = RefText (js ''FDA Guidance'')"
  by (simp add: resolve_def getProperty_def)

text \<open>
  C4. Every reference code absent from the table resolves to "FDA Guidance", and all such
  codes share its footnote number. The code \<^verbatim>\<open>constructor\<close> is absent from the table, yet
  the lookup finds the property that the table object inherits, which is not the fallback
  text; the text with the markers of 9:9 and of \<^verbatim>\<open>constructor\<close>, two codes absent from the
  table, gets two different footnote numbers and two entries in collectedReferences.
\<close>

theorem inherited_code_not_fallback:
  "map_of referenceDetailsMap (js ''constructor'') = None
   \<and> resolve (js ''constructor'') = Inherited (js ''constructor'')
   \<and> resolve (js ''constructor'') \<noteq> RefText (js ''FDA Guidance'')
   \<and> map_of referenceDetailsMap (js ''9:9'') = None
   \<and> resolve (js ''9:9'') = RefText (js ''FDA Guidance'')
   \<and> sanitizeAssistantResponse (marker (js ''9:9'') @ js '' '' @ marker (js ''constructor'')) []
       = (js ''<sup>[1]</sup> <sup>[2]</sup>'',
          [RefText (js ''FDA Guidance''), Inherited (js ''constructor'')])"
  by code_simp


section \<open>Texts without reference markers\<close>

lemma scan_noMatch: "noMatch m s \<Longrightarrow> scan m s = map Lit s"
  by (induction s) simp_all

lemma unifySegs_Lit: "unifySegs (map Lit s) col = (s, col)"
  by (induction s) simp_all

lemma noMatch_matchMarkers: "noMatch matchMarker s \<Longrightarrow> noMatch matchMarkers s"
  by (induction s) (simp_all add: matchMarkers_None)

lemma noMatch_iff: "noMatch m s \<longleftrightarrow> (\<forall>pre suf. s = pre @ suf \<longrightarrow> m suf = None)"
proof (induction s)
  case Nil
  show ?case by simp
next
  case (Cons c cs)
  show ?case
  proof
    assume a: "noMatch m (c # cs)"
    show "\<forall>pre suf. c # cs = pre @ suf \<longrightarrow> m suf = None"
    proof (intro allI impI)
      fix pre suf assume e: "c # cs = pre @ suf"
      show "m suf = None"
      proof (cases pre)
        case Nil
        with e have "suf = c # cs" by simp
        with a show ?thesis by simp
      next
        case (Cons p ps)
        with e have "cs = ps @ suf" by simp
        with a Cons.IH show ?thesis by auto
      qed
    qed
  next
    assume a: "\<forall>pre suf. c # cs = pre @ suf \<longrightarrow> m suf = None"
    then have "m (c # cs) = None" by (metis append_Nil)
    moreover have "\<forall>pre suf. cs = pre @ suf \<longrightarrow> m suf = None"
      using a by (metis append_Cons)
    ultimately show "noMatch m (c # cs)" using Cons.IH by simp
  qed
qed

lemma noMatch_marker_iff:
  "noMatch matchMarker s \<longleftrightarrow> \<not> (\<exists>pre c rest. validCode c \<and> s = pre @ marker c @ rest)"
proof -
  have "noMatch matchMarker s \<longleftrightarrow> (\<forall>pre suf. s = pre @ suf \<longrightarrow> matchMarker suf = None)"
    by (rule noMatch_iff)
  also have "\<dots> \<longleftrightarrow> (\<forall>pre suf. s = pre @ suf \<longrightarrow> \<not> (\<exists>c rest. validCode c \<and> suf = marker c @ rest))"
    using matchMarker_iff by (metis (no_types))
  also have "\<dots> \<longleftrightarrow> \<not> (\<exists>pre c rest. validCode c \<and> s = pre @ marker c @ rest)"
    by blast
  finally show ?thesis .
qed

lemma sanitize_unmarked:
  "noMatch matchMarker (boldHeadings (stripMarkdown text)) \<Longrightarrow>
   sanitizeAssistantResponse text previous
   = (trim (linkReferences (boldHeadings (stripMarkdown text))), [])"
  by (simp add: sanitizeAssistantResponse_def unifyConsecutiveReferences_def
      scan_noMatch noMatch_matchMarkers unifySegs_Lit)

text \<open>
  C9, as stated: a text that contains no reference marker comes back with no footnote and
  leaves collectedReferences empty. It fails where removing the asterisks completes a
  marker.
\<close>

theorem no_markers_counterexample:
  "\<not> (noMatch matchMarker (lbr # js ''4:8'' @ [dagger] @ js ''sou**rce'' @ [rbr]) \<longrightarrow>
       sanitizeAssistantResponse (lbr # js ''4:8'' @ [dagger] @ js ''sou**rce'' @ [rbr]) []
       = (trim (linkReferences (boldHeadings (stripMarkdown
            (lbr # js ''4:8'' @ [dagger] @ js ''sou**rce'' @ [rbr])))), []))"
  by code_simp

text \<open>
  C9, amended. When the text holds no reference marker after the markdown is stripped and
  the headings are put in bold, sanitizeAssistantResponse returns that text with the
  reference phrases linked and the surrounding white space trimmed, with no footnote put in,
  and collectedReferences is empty afterwards, whatever it held before.
\<close>

theorem no_markers_after_stripping:
  "noMatch matchMarker (boldHeadings (stripMarkdown text)) \<Longrightarrow>
   sanitizeAssistantResponse text previous
   = (trim (linkReferences (boldHeadings (stripMarkdown text))), [])"
  by (simp add: sanitizeAssistantResponse_def unifyConsecutiveReferences_def
      scan_noMatch noMatch_matchMarkers unifySegs_Lit)

theorem no_markers_after_stripping_witness:
  "noMatch matchMarker (boldHeadings (stripMarkdown (js '' # Question asked: **why** [1]? '')))
   \<and> sanitizeAssistantResponse (js '' # Question asked: **why** [1]? '') [RefText (js ''stale'')]
     = (js ''<strong>Question asked</strong>: why ?'', [])"
proof -
  have h: "noMatch matchMarker (boldHeadings (stripMarkdown (js '' # Question asked: **why** [1]? '')))"
    by code_simp
  have e: "trim (linkReferences (boldHeadings (stripMarkdown (js '' # Question asked: **why** [1]? ''))))
     = js ''<strong>Question asked</strong>: why ?''"
    by code_simp
  from no_markers_after_stripping[OF h, of "[RefText (js ''stale'')]"] h show ?thesis
    unfolding e by simp
qed

section \<open>Texts that sanitizeAssistantResponse only trims\<close>

lemma noMatch_suffix: "noMatch m (pre @ s) \<Longrightarrow> noMatch m s"
  by (induction pre) simp_all

lemma noMatch_prefix:
  assumes "stable m" and "noMatch m (s @ w)"
  shows "noMatch m s"
  using assms(2)
proof (induction s)
  case Nil
  then have "m ([] @ w) = None" by (cases w) simp_all
  with assms(1) show ?case unfolding stable_def by (metis noMatch.simps(1))
next
  case (Cons c cs)
  then have "m ((c # cs) @ w) = None" and "noMatch m cs" by simp_all
  with assms(1) show ?case unfolding stable_def by (metis noMatch.simps(2))
qed

lemma trim_decompose: "\<exists>pre suf. s = pre @ trim s @ suf"
proof -
  let ?u = "dropWhile isSpace s"
  have "s = takeWhile isSpace s @ ?u" by simp
  moreover have "?u = rev (dropWhile isSpace (rev ?u)) @ rev (takeWhile isSpace (rev ?u))"
    by (metis rev_append rev_rev_ident takeWhile_dropWhile_id)
  ultimately have "s = takeWhile isSpace s @ trim s @ rev (takeWhile isSpace (rev ?u))"
    by (simp add: trim_def)
  then show ?thesis by blast
qed

lemma noMatch_trim:
  assumes "stable m" and "noMatch m s"
  shows "noMatch m (trim s)"
proof -
  from trim_decompose obtain pre suf where "s = pre @ trim s @ suf" by blast
  with assms(2) have "noMatch m (pre @ trim s @ suf)" by simp
  then have "noMatch m (trim s @ suf)" by (rule noMatch_suffix)
  with assms(1) show ?thesis by (rule noMatch_prefix)
qed

lemma dropWhile_keep: "s = [] \<or> \<not> P (hd s) \<Longrightarrow> dropWhile P s = s"
  by (cases s) auto

lemma trim_trim: "trim (trim s) = trim s"
proof -
  let ?u = "dropWhile isSpace s"
  let ?v = "dropWhile isSpace (rev ?u)"
  have t: "trim s = rev ?v" by (simp add: trim_def)
  have v: "dropWhile isSpace ?v = ?v" by simp
  have "rev ?v = [] \<or> \<not> isSpace (hd (rev ?v))"
  proof (cases "?v = []")
    case True
    then show ?thesis by simp
  next
    case False
    have "rev ?u = takeWhile isSpace (rev ?u) @ ?v" by simp
    with False have "last ?v = last (rev ?u)" by (metis last_appendR)
    moreover have u: "?u \<noteq> []"
    proof
      assume a: "?u = []"
      have "?v = []" unfolding a by simp
      with False show False by simp
    qed
    ultimately have "hd (rev ?v) = hd ?u" using False by (simp add: hd_rev last_rev)
    moreover have "\<not> isSpace (hd ?u)" using u by (rule hd_dropWhile)
    ultimately show ?thesis by simp
  qed
  then have "dropWhile isSpace (rev ?v) = rev ?v" by (rule dropWhile_keep)
  then show ?thesis unfolding t by (simp add: trim_def[of "rev ?v"] v)
qed

lemma length_takeWhile_less:
  "length (takeWhile P xs) < length xs \<longleftrightarrow> (\<exists>x\<in>set xs. \<not> P x)"
  by (induction xs) auto

lemma stable_matchHashes: "stable matchHashes"
proof -
  have "matchHashes s \<noteq> None \<longleftrightarrow> (s \<noteq> [] \<and> hd s = 35)" for s
    by (cases s) (auto simp: matchHashes_def Let_def split: list.splits)
  then show ?thesis by (auto simp: stable_def)
qed

lemma stable_matchStars: "stable matchStars"
  by (auto simp: stable_def matchStars_def)

lemma stable_matchBracket: "stable matchBracket"
proof -
  have "matchBracket s \<noteq> None \<longleftrightarrow> (\<exists>r. s = 91 # r \<and> 93 \<in> set r)" for s
  proof (cases s)
    case Nil
    then show ?thesis by (simp add: matchBracket_def)
  next
    case (Cons c r)
    have "length (takeWhile (\<lambda>x. x \<noteq> 93) r) < length r \<longleftrightarrow> 93 \<in> set r"
      by (simp add: length_takeWhile_less)
    with Cons show ?thesis by (simp add: matchBracket_def Let_def)
  qed
  then show ?thesis by (auto simp: stable_def)
qed

lemma matchPhrase_append:
  "matchPhrase p s = Some n \<Longrightarrow> matchPhrase p (s @ w) = Some n"
  by (auto simp: matchPhrase_def split: if_splits)

lemma stable_matchPhrase: "stable (matchPhrase p)"
  using matchPhrase_append by (fastforce simp: stable_def)

lemma stable_matchMarker: "stable matchMarker"
  unfolding stable_def matchMarker_iff by (metis append.assoc)

lemma matchPhrase_SomeD:
  "matchPhrase p s = Some n \<Longrightarrow> n = length p \<and> length p \<le> length s"
  by (auto simp: matchPhrase_def split: if_splits)

lemma matchPhrase_first:
  "matchPhrase p s = Some n \<Longrightarrow> p \<noteq> [] \<Longrightarrow> s \<noteq> [] \<and> canon (hd s) = canon (hd p)"
  by (cases p; cases s) (auto simp: matchPhrase_def split: if_splits)

lemma matchPhrase_first_None:
  "p \<noteq> [] \<Longrightarrow> s \<noteq> [] \<Longrightarrow> canon (hd s) \<noteq> canon (hd p) \<Longrightarrow> matchPhrase p s = None"
  using matchPhrase_first[of p s] by (cases "matchPhrase p s") auto

lemma keyword_heads:
  "js ''Refer to'' \<noteq> []" "js ''See'' \<noteq> []" "js ''For'' \<noteq> []"
  "canon (hd (js ''Refer to'')) = 82" "canon (hd (js ''See'')) = 83" "canon (hd (js ''For'')) = 70"
  by (simp_all add: js_def canon_def)

lemma matchKeyword_append:
  assumes "matchKeyword s = Some k"
  shows "matchKeyword (s @ w) = Some k \<and> k \<le> length s"
proof (cases "matchPhrase (js ''Refer to'') s")
  case (Some n)
  with assms have "n = k" by (simp add: matchKeyword_def)
  with Some matchPhrase_append[OF Some, of w] matchPhrase_SomeD[OF Some] show ?thesis
    by (simp add: matchKeyword_def)
next
  case None
  note r = None
  show ?thesis
  proof (cases "matchPhrase (js ''See'') s")
    case (Some n)
    with assms r have nk: "n = k" by (simp add: matchKeyword_def)
    from matchPhrase_first[OF Some keyword_heads(2)]
    have h: "s \<noteq> []" "canon (hd s) = 83" by (simp_all add: keyword_heads)
    then have "matchPhrase (js ''Refer to'') (s @ w) = None"
      by (intro matchPhrase_first_None) (simp_all add: keyword_heads)
    with nk matchPhrase_append[OF Some, of w] matchPhrase_SomeD[OF Some] show ?thesis
      by (simp add: matchKeyword_def)
  next
    case None
    with assms r have f: "matchPhrase (js ''For'') s = Some k" by (simp add: matchKeyword_def)
    from matchPhrase_first[OF f keyword_heads(3)]
    have h: "s \<noteq> []" "canon (hd s) = 70" by (simp_all add: keyword_heads)
    then have "matchPhrase (js ''Refer to'') (s @ w) = None" "matchPhrase (js ''See'') (s @ w) = None"
      by (intro matchPhrase_first_None; simp add: keyword_heads)+
    with matchPhrase_append[OF f, of w] matchPhrase_SomeD[OF f] show ?thesis
      by (simp add: matchKeyword_def)
  qed
qed

lemma takeWhile_append_stop:
  "length (takeWhile P r) < length r \<Longrightarrow> takeWhile P (r @ w) = takeWhile P r"
  by (induction r) auto

lemma takeWhile_append_nonempty:
  "takeWhile P r \<noteq> [] \<Longrightarrow> takeWhile P (r @ w) \<noteq> []"
  by (cases r) (auto split: if_splits)

lemma stable_matchLink: "stable matchLink"
  unfolding stable_def
proof (intro allI impI)
  fix s w assume "matchLink s \<noteq> None"
  then obtain k where k: "matchKeyword s = Some k"
    by (auto simp: matchLink_def split: option.splits)
  define r where "r = drop k s"
  define a where "a = takeWhile (\<lambda>x. x \<noteq> 45) r"
  define r1 where "r1 = drop (length a - 1) r"
  from \<open>matchLink s \<noteq> None\<close> k have a2: "\<not> length a < 2"
    by (auto simp: matchLink_def Let_def r_def a_def split: option.splits if_splits)
  with \<open>matchLink s \<noteq> None\<close> k obtain p where p: "matchPhrase (js '' - Page '') r1 = Some p"
    by (auto simp: matchLink_def Let_def r_def a_def r1_def split: option.splits if_splits)
  define r2 where "r2 = drop p r1"
  define d where "d = takeWhile isDigit r2"
  from \<open>matchLink s \<noteq> None\<close> k a2 p have d: "d \<noteq> []"
    by (auto simp: matchLink_def Let_def r_def a_def r1_def r2_def d_def split: option.splits if_splits)
  from matchKeyword_append[OF k, of w] have k': "matchKeyword (s @ w) = Some k" and ks: "k \<le> length s"
    by simp_all
  have r': "drop k (s @ w) = r @ w" using ks by (simp add: r_def)
  from matchPhrase_SomeD[OF p] have pl: "p = length (js '' - Page '')" "p \<le> length r1" by simp_all
  then have "8 \<le> length r1" by (simp add: js_def)
  then have "length a < length r" using a2 by (simp add: r1_def)
  then have a': "takeWhile (\<lambda>x. x \<noteq> 45) (r @ w) = a" and al: "length a - 1 \<le> length r"
    unfolding a_def by (simp_all add: takeWhile_append_stop)
  have r1': "drop (length a - 1) (r @ w) = r1 @ w" using al by (simp add: r1_def)
  have p': "matchPhrase (js '' - Page '') (r1 @ w) = Some p" using p by (rule matchPhrase_append)
  have r2': "drop p (r1 @ w) = r2 @ w" using pl(2) by (simp add: r2_def)
  have d': "takeWhile isDigit (r2 @ w) \<noteq> []" using d unfolding d_def by (rule takeWhile_append_nonempty)
  show "matchLink (s @ w) \<noteq> None"
    using d'
    by (simp only: matchLink_def k' option.case Let_def r' a' a2 if_False r1' p' r2')
       (simp split: option.splits)
qed

lemma sanitize_plain:
  assumes "plainText text"
  shows "sanitizeAssistantResponse text previous = (trim text, [])"
proof -
  from assms have "boldHeadings (stripMarkdown text) = text"
    by (simp add: plainText_def stripMarkdown_plain boldHeadings_plain)
  moreover from assms have "noMatch matchMarker text" "linkReferences text = text"
    by (simp_all add: plainText_def linkReferences_def replaceAll_noMatch)
  ultimately show ?thesis
    using sanitize_unmarked[of "text" previous] by simp
qed

lemma plainText_trim:
  assumes "plainText text"
  shows "plainText (trim text)"
  using assms unfolding plainText_def noMarkdown_def noHeadings_def
  by (simp add: noMatch_trim stable_matchHashes stable_matchStars stable_matchBracket
      stable_matchPhrase stable_matchMarker stable_matchLink)

text \<open>
  C3, as stated: on a text with no markdown marker and no reference marker, running
  sanitizeAssistantResponse on its own result gives that result again. It fails on a
  heading, which is wrapped in bold once more.
\<close>

theorem sanitize_twice_counterexample:
  "\<not> (noMarkdown (js ''Question Asked'') \<and> noMatch matchMarker (js ''Question Asked'') \<longrightarrow>
        fst (sanitizeAssistantResponse (fst (sanitizeAssistantResponse (js ''Question Asked'') [])) [])
        = fst (sanitizeAssistantResponse (js ''Question Asked'') []))"
  by code_simp

text \<open>
  C3, amended. On a text with no markdown marker, no bracketed content, no reference
  marker, none of the five headings and no reference phrase, sanitizeAssistantResponse
  only trims the surrounding white space and empties collectedReferences, and running it
  on its own result gives the same result again.
\<close>

theorem sanitize_idempotent_plain:
  "plainText text \<Longrightarrow>
     sanitizeAssistantResponse text previous = (trim text, [])
     \<and> sanitizeAssistantResponse (fst (sanitizeAssistantResponse text previous)) previous'
       = sanitizeAssistantResponse text previous"
proof -
  assume p: "plainText text"
  have a: "sanitizeAssistantResponse text previous = (trim text, [])"
    using p by (rule sanitize_plain)
  have "sanitizeAssistantResponse (trim text) previous' = (trim (trim text), [])"
    using plainText_trim[OF p] by (rule sanitize_plain)
  then show ?thesis unfolding a by (simp add: trim_trim)
qed

theorem sanitize_idempotent_plain_witness:
  "plainText (js ''  Cosmetics need no approval - see the guidance.  '')
   \<and> sanitizeAssistantResponse (js ''  Cosmetics need no approval - see the guidance.  '') []
     = (js ''Cosmetics need no approval - see the guidance.'', [])
   \<and> sanitizeAssistantResponse (js ''Cosmetics need no approval - see the guidance.'')
        [RefText (js ''stale'')]
     = (js ''Cosmetics need no approval - see the guidance.'', [])"
proof -
  let ?text = "js ''  Cosmetics need no approval - see the guidance.  ''"
  have h: "plainText ?text" by code_simp
  have t: "trim ?text = js ''Cosmetics need no approval - see the guidance.''" by code_simp
  note w = sanitize_idempotent_plain[OF h, of "[]" "[RefText (js ''stale'')]", unfolded t]
  from w have a: "sanitizeAssistantResponse ?text []
      = (js ''Cosmetics need no approval - see the guidance.'', [])"
    by (rule conjunct1)
  from w have "sanitizeAssistantResponse (fst (sanitizeAssistantResponse ?text []))
      [RefText (js ''stale'')] = sanitizeAssistantResponse ?text []"
    by (rule conjunct2)
  then show ?thesis unfolding a using h by simp
qed

section \<open>The opening calls\<close>

lemma fetchJson_accepted:
  "accepted (net i) \<Longrightarrow> \<exists>status v. net i = Response status (Inr v) \<and> ok status \<and> fetchJson net i = Inr (status, v)"
  by (auto simp: accepted_def fetchJson_def split: fetch_result.splits sum.splits)

lemma threadOf_SomeD:
  "threadOf rt r = Some tid \<Longrightarrow>
   \<exists>status td v. r = Response status (Inr td) \<and> ok status \<and> getProp rt td (js ''id'') = Inr v \<and> toStr rt v = Inr tid"
  by (auto simp: threadOf_def split: fetch_result.splits sum.splits if_splits)

lemma runOf_SomeD:
  "runOf rt r = Some (runId, st) \<Longrightarrow>
   \<exists>status rd. r = Response status (Inr rd) \<and> ok status \<and> getProp rt rd (js ''id'') = Inr runId
      \<and> getProp rt rd (js ''status'') = Inr st"
  by (auto simp: runOf_def split: fetch_result.splits sum.splits if_splits)

lemma startRun_ok:
  assumes "threadOf rt (net 0) = Some tid" and "accepted (net 1)" and "runOf rt (net 2) = Some (runId, st)"
  shows "startRun rt net userInput = (Inr (tid, runId, st), openingCalls rt tid userInput)"
proof -
  from threadOf_SomeD[OF assms(1)] obtain s0 td v where
    n0: "net 0 = Response s0 (Inr td)" "ok s0" "getProp rt td (js ''id'') = Inr v" "toStr rt v = Inr tid"
    by blast
  from fetchJson_accepted[of net 1, OF assms(2)] obtain s1 md where
    n1: "fetchJson net 1 = Inr (s1, md)" "ok s1" by blast
  from runOf_SomeD[OF assms(3)] obtain s2 rd where
    n2: "net 2 = Response s2 (Inr rd)" "ok s2" "getProp rt rd (js ''id'') = Inr runId"
      "getProp rt rd (js ''status'') = Inr st" by blast
  have f0: "fetchJson net 0 = Inr (s0, td)" and f2: "fetchJson net 2 = Inr (s2, rd)"
    using n0(1) n2(1) by (simp_all add: fetchJson_def)
  show ?thesis
    by (simp add: startRun_def Let_def f0 n0 n1 f2 n2 openingCalls_def del: One_nat_def)
qed

lemma reportsFailure_catch: "reportsFailure s (catchAll (Thrown e))"
  by (simp add: reportsFailure_def catchPrefix_def)

lemma reportsFailure_step: "reportsFailure s (Returned (Str (stepErrorPrefix s @ d)))"
  by (simp add: reportsFailure_def)







lemma catchAll_Thrown:
  "catchAll (Thrown e) =
     Returned (Str (js ''An error occurred while processing your request: '' @ message e))"
  by simp








section \<open>The polling loop\<close>

lemma statusOf_SomeD:
  "statusOf rt r = Some st \<Longrightarrow>
   \<exists>status pd. r = Response status (Inr pd) \<and> getProp rt pd (js ''status'') = Inr st"
  by (auto simp: statusOf_def split: fetch_result.splits sum.splits)

lemma terminal_iff:
  "\<not> terminal st \<longleftrightarrow> st \<noteq> Str (js ''completed'') \<and> st \<noteq> Str (js ''failed'')"
  by (simp add: terminal_def)

lemma pollRun_stop: "terminal st \<Longrightarrow> pollRun rt net tid runId i st tr = Some (Inr st, i, tr)"
  by (subst pollRun.simps) (auto simp: terminal_def)

lemma pollRun_step:
  assumes "\<not> terminal st" and "toStr rt runId = Inr rid"
    and "statusOf rt (net i) = Some st'" and "toBoolean st'"
  shows "pollRun rt net tid runId i st tr =
         pollRun rt net tid runId (Suc i) st' (tr @ [Sleep 1000, Fetch (pollRequest tid rid)])"
proof -
  from statusOf_SomeD[OF assms(3)] obtain status pd where
    "net i = Response status (Inr pd)" and g: "getProp rt pd (js ''status'') = Inr st'" by blast
  then have f: "fetchJson net i = Inr (status, pd)" by (simp add: fetchJson_def)
  show ?thesis
    by (subst pollRun.simps) (use assms(1,2,4) f g in \<open>simp add: terminal_def\<close>)
qed

lemma pollRun_fail:
  assumes "\<not> terminal st" and "toStr rt runId = Inr rid" and "pollFails rt (net i)"
  shows "\<exists>out. pollRun rt net tid runId i st tr =
            Some (Inl out, Suc i, tr @ [Sleep 1000, Fetch (pollRequest tid rid)])
          \<and> reportsFailure Poll (catchAll out)"
proof (cases "fetchJson net i")
  case (Inl e)
  show ?thesis
    by (subst pollRun.simps) (use assms(1,2) Inl reportsFailure_catch in \<open>simp add: terminal_def\<close>)
next
  case (Inr p)
  obtain status pd where p: "p = (status, pd)" by (cases p)
  with Inr have n: "net i = Response status (Inr pd)"
    by (auto simp: fetchJson_def split: fetch_result.splits sum.splits)
  show ?thesis
  proof (cases "getProp rt pd (js ''status'')")
    case (Inl e)
    show ?thesis
      by (subst pollRun.simps)
         (use assms(1,2) Inr p Inl reportsFailure_catch in \<open>simp add: terminal_def\<close>)
  next
    case (Inr st')
    with assms(3) n have "\<not> toBoolean st'" by (simp add: pollFails_def statusOf_def)
    then show ?thesis
      by (subst pollRun.simps)
         (use assms(1,2) \<open>fetchJson net i = Inr p\<close> p Inr reportsFailure_step[of Poll "[]"]
           in \<open>simp add: terminal_def\<close>)
  qed
qed

lemma pending_D:
  "pending rt r \<Longrightarrow> \<exists>st. statusOf rt r = Some st \<and> toBoolean st \<and> \<not> terminal st"
  by (auto simp: pending_def split: option.splits)

lemma pollRounds_Suc:
  "pollRounds tid rid (Suc n) = pollRounds tid rid n @ [Sleep 1000, Fetch (pollRequest tid rid)]"
  unfolding pollRounds_def by (induction n) simp_all

lemma statusAfter_nonterminal:
  assumes "\<not> terminal st" and "\<forall>k<n. pending rt (net (i + k))"
  shows "\<not> terminal (statusAfter rt net st i n)"
proof (cases n)
  case 0
  with assms(1) show ?thesis by simp
next
  case (Suc m)
  with assms(2) have "pending rt (net (i + m))" by simp
  from pending_D[OF this] Suc show ?thesis by auto
qed

lemma pollRun_unroll:
  assumes "\<not> terminal st" and "toStr rt runId = Inr rid" and "\<forall>k<n. pending rt (net (i + k))"
  shows "pollRun rt net tid runId i st tr =
         pollRun rt net tid runId (i + n) (statusAfter rt net st i n) (tr @ pollRounds tid rid n)"
  using assms(3)
proof (induction n)
  case 0
  show ?case by (simp add: pollRounds_def)
next
  case (Suc n)
  then have ih: "pollRun rt net tid runId i st tr =
         pollRun rt net tid runId (i + n) (statusAfter rt net st i n) (tr @ pollRounds tid rid n)"
    and p: "pending rt (net (i + n))" and q: "\<forall>k<n. pending rt (net (i + k))" by simp_all
  from pending_D[OF p] obtain st' where s: "statusOf rt (net (i + n)) = Some st'" "toBoolean st'"
    by blast
  have nt: "\<not> terminal (statusAfter rt net st i n)"
    using assms(1) q by (rule statusAfter_nonterminal)
  show ?case
    unfolding ih pollRun_step[where net=net and i="i + n" and tid=tid
        and tr="tr @ pollRounds tid rid n", OF nt assms(2) s]
    by (simp add: s pollRounds_Suc)
qed




lemma terminal_truthy: "terminal st \<Longrightarrow> toBoolean st"
  by (auto simp: terminal_def js_def)

lemma pollRun_reaches:
  assumes "reaches rt net st m final" and "terminal final" and "toStr rt runId = Inr rid"
  shows "pollRun rt net tid runId 3 st tr = Some (Inr final, 3 + m, tr @ pollRounds tid rid m)"
proof (cases m)
  case 0
  with assms show ?thesis by (simp add: pollRun_stop pollRounds_def)
next
  case (Suc n)
  with assms(1) have nt: "\<not> terminal st" and p: "\<forall>k<n. pending rt (net (3 + k))"
    and f: "statusOf rt (net (3 + n)) = Some final"
    by (simp_all add: list_all_iff)
  have "pollRun rt net tid runId 3 st tr =
        pollRun rt net tid runId (3 + n) (statusAfter rt net st 3 n) (tr @ pollRounds tid rid n)"
    using nt assms(3) p by (rule pollRun_unroll)
  also have "\<dots> = pollRun rt net tid runId (Suc (3 + n)) final
        ((tr @ pollRounds tid rid n) @ [Sleep 1000, Fetch (pollRequest tid rid)])"
    using statusAfter_nonterminal[OF nt p] assms(3) f terminal_truthy[OF assms(2)]
    by (rule pollRun_step)
  also have "\<dots> = Some (Inr final, Suc (3 + n), (tr @ pollRounds tid rid n) @ [Sleep 1000, Fetch (pollRequest tid rid)])"
    using assms(2) by (rule pollRun_stop)
  finally show ?thesis using Suc by (simp add: pollRounds_Suc)
qed




lemma create_poll_fail:
  assumes "threadOf rt (net 0) = Some tid" and "accepted (net 1)"
    and "runOf rt (net 2) = Some (runId, st)"
    and "\<not> terminal st" and "toStr rt runId = Inr rid"
    and "\<forall>k<n. pending rt (net (3 + k))" and "pollFails rt (net (3 + n))"
  shows "\<exists>out. createThreadWithMessage rt net userInput =
       Some (out, openingCalls rt tid userInput @ pollRounds tid rid (Suc n))
     \<and> reportsFailure Poll out"
proof -
  let ?tr = "openingCalls rt tid userInput"
  have "pollRun rt net tid runId 3 st ?tr =
        pollRun rt net tid runId (3 + n) (statusAfter rt net st 3 n) (?tr @ pollRounds tid rid n)"
    using assms(4,5,6) by (rule pollRun_unroll)
  moreover from pollRun_fail[where net=net and i="3 + n" and tid=tid and tr="?tr @ pollRounds tid rid n",
      OF statusAfter_nonterminal[OF assms(4,6)] assms(5,7)]
  obtain out where "pollRun rt net tid runId (3 + n) (statusAfter rt net st 3 n) (?tr @ pollRounds tid rid n)
      = Some (Inl out, Suc (3 + n), (?tr @ pollRounds tid rid n) @ [Sleep 1000, Fetch (pollRequest tid rid)])"
    and r: "reportsFailure Poll (catchAll out)" by blast
  ultimately have "createThreadWithMessage rt net userInput =
      Some (catchAll out, ?tr @ pollRounds tid rid (Suc n))"
    by (simp add: createThreadWithMessage_def startRun_ok[where net=net, OF assms(1,2,3)] pollRounds_Suc)
  with r show ?thesis by blast
qed

lemma create_reaches:
  assumes "threadOf rt (net 0) = Some tid" and "accepted (net 1)"
    and "runOf rt (net 2) = Some (runId, st)"
    and "toStr rt runId = Inr rid" and "reaches rt net st m final" and "terminal final"
  shows "createThreadWithMessage rt net userInput =
     Some (catchAll (fst (fetchAnswer rt net tid (3 + m) final (openingCalls rt tid userInput @ pollRounds tid rid m))),
           snd (fetchAnswer rt net tid (3 + m) final (openingCalls rt tid userInput @ pollRounds tid rid m)))"
  by (simp add: createThreadWithMessage_def startRun_ok[where net=net, OF assms(1,2,3)]
      pollRun_reaches[OF assms(5,6,4)] split: prod.splits)

lemma create_failed:
  assumes "threadOf rt (net 0) = Some tid" and "accepted (net 1)"
    and "runOf rt (net 2) = Some (runId, st)"
    and "toStr rt runId = Inr rid" and "reaches rt net st m (Str (js ''failed''))"
  shows "createThreadWithMessage rt net userInput =
     Some (Returned (Str failedText), openingCalls rt tid userInput @ pollRounds tid rid m)"
  using create_reaches[where net=net and userInput=userInput, OF assms]
  by (simp add: terminal_def fetchAnswer_def failedText_def)

lemma create_completed:
  assumes "threadOf rt (net 0) = Some tid" and "accepted (net 1)"
    and "runOf rt (net 2) = Some (runId, st)"
    and "toStr rt runId = Inr rid" and "reaches rt net st m (Str (js ''completed''))"
  shows "createThreadWithMessage rt net userInput =
     Some (catchAll (fst (fetchAnswer rt net tid (3 + m) (Str (js ''completed''))
                       (openingCalls rt tid userInput @ pollRounds tid rid m))),
           openingCalls rt tid userInput @ pollRounds tid rid m @ [Fetch (getMessagesRequest tid)])"
proof -
  have "Str (js ''completed'') \<noteq> Str (js ''failed'')" by (simp add: js_def)
  then have "snd (fetchAnswer rt net tid (3 + m) (Str (js ''completed''))
                       (openingCalls rt tid userInput @ pollRounds tid rid m))
     = openingCalls rt tid userInput @ pollRounds tid rid m @ [Fetch (getMessagesRequest tid)]"
    by (simp add: fetchAnswer_def Let_def split: sum.splits prod.splits)
  then show ?thesis using create_reaches[where net=net and userInput=userInput, OF assms] by (simp add: terminal_def)
qed












section \<open>A failed run\<close>

lemma sendMessage_string:
  assumes "createThreadWithMessage rt net userInput = Some (Returned (Str msg), tr)"
    and "trim userInput \<noteq> []"
  shows "sendMessage rt notFound net userInput w =
     Some (w\<lparr>messages := messages w @
                [userMessage userInput,
                 chatbotMessage (fst (sanitizeAssistantResponse msg (collectedReferences w)))],
             thinking := False,
             collectedReferences := snd (sanitizeAssistantResponse msg (collectedReferences w))\<rparr>,
           None)"
  using assms
  by (simp add: sendMessage_def Let_def userMessage_def chatbotMessage_def split: prod.splits)

lemma sanitize_failedText: "sanitizeAssistantResponse failedText c = (failedText, [])"
proof -
  have "plainText failedText" by code_simp
  moreover have "trim failedText = failedText" by code_simp
  ultimately show ?thesis using sanitize_plain[of failedText c] by simp
qed

lemma request_distinct:
  "getMessagesRequest tid \<noteq> createThreadRequest rt"
  "getMessagesRequest tid \<noteq> addMessageRequest rt tid' u"
  "getMessagesRequest tid \<noteq> runRequest rt tid'"
  "getMessagesRequest tid \<noteq> pollRequest tid rid"
  by (simp_all add: getMessagesRequest_def createThreadRequest_def addMessageRequest_def
      runRequest_def pollRequest_def js_def)

lemma set_pollRounds:
  "set (pollRounds tid rid n) \<subseteq> {Sleep 1000, Fetch (pollRequest tid rid)}"
  by (induction n) (auto simp: pollRounds_def)

lemma no_getMessages:
  "Fetch (getMessagesRequest tid) \<notin> set (openingCalls rt tid u @ pollRounds tid rid m)"
proof -
  have "Fetch (getMessagesRequest tid) \<notin> {Sleep 1000, Fetch (pollRequest tid rid)}"
    by (simp add: request_distinct)
  with set_pollRounds[of tid rid m] have "Fetch (getMessagesRequest tid) \<notin> set (pollRounds tid rid m)"
    by blast
  then show ?thesis by (simp add: openingCalls_def request_distinct)
qed

text \<open>
  C6. When the run ends with the status \<^verbatim>\<open>failed\<close>, at the start or with some poll,
  createThreadWithMessage returns the text "Assistant failed to process the thread." and
  makes no call after the poll that brought the status: the messages of the thread are
  never fetched, so no message of the assistant is shown. What sendMessage shows, behind
  the messages shown before and the user's message, is that text.
\<close>

theorem failed_run_reported:
  "threadOf rt (net 0) = Some threadId \<Longrightarrow> accepted (net 1) \<Longrightarrow>
   runOf rt (net 2) = Some (runId, runStatus) \<Longrightarrow> toStr rt runId = Inr rid \<Longrightarrow>
   reaches rt net runStatus m (Str (js ''failed'')) \<Longrightarrow> trim userInput \<noteq> [] \<Longrightarrow>
     createThreadWithMessage rt net userInput =
       Some (Returned (Str (js ''Assistant failed to process the thread.'')),
             openingCalls rt threadId userInput @ pollRounds threadId rid m)
     \<and> Fetch (getMessagesRequest threadId) \<notin>
         set (openingCalls rt threadId userInput @ pollRounds threadId rid m)
     \<and> sendMessage rt notFound net userInput w =
         Some (w\<lparr>messages := messages w @
                    [userMessage userInput,
                     chatbotMessage (js ''Assistant failed to process the thread.'')],
                 thinking := False, collectedReferences := []\<rparr>, None)"
proof -
  assume a: "threadOf rt (net 0) = Some threadId" "accepted (net 1)"
    "runOf rt (net 2) = Some (runId, runStatus)" "toStr rt runId = Inr rid"
    "reaches rt net runStatus m (Str (js ''failed''))"
    and t: "trim userInput \<noteq> []"
  have c: "createThreadWithMessage rt net userInput =
       Some (Returned (Str failedText), openingCalls rt threadId userInput @ pollRounds threadId rid m)"
    using a by (rule create_failed)
  from sendMessage_string[OF c t, of notFound w]
  have s: "sendMessage rt notFound net userInput w =
         Some (w\<lparr>messages := messages w @ [userMessage userInput, chatbotMessage failedText],
                 thinking := False, collectedReferences := []\<rparr>, None)"
    by (simp add: sanitize_failedText)
  show ?thesis using c s no_getMessages[of threadId rt userInput rid m]
    unfolding failedText_def by blast
qed

theorem failed_run_reported_witness:
  "threadOf demoRuntime (failingRun 0) = Some (js ''id_0'') \<and> accepted (failingRun 1)
   \<and> runOf demoRuntime (failingRun 2) = Some (Str (js ''id_2''), Str (js ''queued''))
   \<and> toStr demoRuntime (Str (js ''id_2'')) = Inr (js ''id_2'')
   \<and> reaches demoRuntime failingRun (Str (js ''queued'')) 3 (Str (js ''failed''))
   \<and> trim (js ''Is talc safe?'') \<noteq> []
   \<and> createThreadWithMessage demoRuntime failingRun (js ''Is talc safe?'') =
       Some (Returned (Str (js ''Assistant failed to process the thread.'')),
             openingCalls demoRuntime (js ''id_0'') (js ''Is talc safe?'')
             @ pollRounds (js ''id_0'') (js ''id_2'') 3)
   \<and> sendMessage demoRuntime (JsError (js ''NotFoundError'')) failingRun (js ''Is talc safe?'')
        \<lparr>messages = [chatbotMessage (js ''Earlier answer'')], thinking = False,
         collectedReferences = [RefText (js ''Page 18, Section 2'')]\<rparr> =
       Some (\<lparr>messages = [chatbotMessage (js ''Earlier answer''), userMessage (js ''Is talc safe?''),
                          chatbotMessage (js ''Assistant failed to process the thread.'')],
              thinking = False, collectedReferences = []\<rparr>, None)"
proof -
  have h: "threadOf demoRuntime (failingRun 0) = Some (js ''id_0'')" "accepted (failingRun 1)"
    "runOf demoRuntime (failingRun 2) = Some (Str (js ''id_2''), Str (js ''queued''))"
    "toStr demoRuntime (Str (js ''id_2'')) = Inr (js ''id_2'')"
    "reaches demoRuntime failingRun (Str (js ''queued'')) 3 (Str (js ''failed''))"
    "trim (js ''Is talc safe?'') \<noteq> []"
    by code_simp+
  from failed_run_reported[OF h, of "JsError (js ''NotFoundError'')"
      "\<lparr>messages = [chatbotMessage (js ''Earlier answer'')], thinking = False,
         collectedReferences = [RefText (js ''Page 18, Section 2'')]\<rparr>"] h
  show ?thesis by simp
qed

section \<open>Failing steps\<close>

lemma fetch_fail:
  assumes "httpFails (net i)" and "st \<noteq> Str (js ''failed'')"
  shows "reportsFailure FetchMessages (catchAll (fst (fetchAnswer rt net tid i st tr)))"
proof (cases "fetchJson net i")
  case (Inl e)
  then show ?thesis using assms(2) reportsFailure_catch by (simp add: fetchAnswer_def)
next
  case (Inr p)
  obtain status md where p: "p = (status, md)" by (cases p)
  with Inr assms(1) have "\<not> ok status"
    by (auto simp: httpFails_def accepted_def fetchJson_def split: fetch_result.splits sum.splits)
  then show ?thesis
    using assms(2) Inr p
      reportsFailure_step[of FetchMessages "showNat status @ js '', Details: '' @ stringify rt md"]
    by (simp add: fetchAnswer_def)
qed

lemma create_fetch_fail:
  assumes "threadOf rt (net 0) = Some tid" and "accepted (net 1)"
    and "runOf rt (net 2) = Some (runId, st)"
    and "toStr rt runId = Inr rid" and "reaches rt net st m (Str (js ''completed''))"
    and "httpFails (net (3 + m))"
  shows "\<exists>out. createThreadWithMessage rt net userInput =
       Some (out, openingCalls rt tid userInput @ pollRounds tid rid m @ [Fetch (getMessagesRequest tid)])
     \<and> reportsFailure FetchMessages out"
proof -
  have "Str (js ''completed'') \<noteq> Str (js ''failed'')" by (simp add: js_def)
  with assms(6) have "reportsFailure FetchMessages (catchAll (fst (fetchAnswer rt net tid (3 + m)
      (Str (js ''completed'')) (openingCalls rt tid userInput @ pollRounds tid rid m))))"
    by (rule fetch_fail)
  with create_completed[where net=net and userInput=userInput, OF assms(1-5)] show ?thesis
    by blast
qed





section \<open>The answer of the assistant\<close>

lemma getProp_present: "present v \<Longrightarrow> \<exists>x. getProp rt v p = Inr x"
  by (cases v) (auto simp: getProp_def present_def split: option.splits)

lemma toBoolean_present: "toBoolean v \<Longrightarrow> present v"
  by (cases v) (auto simp: present_def)

lemma isAssistant_truthy: "isAssistant rt a \<Longrightarrow> toBoolean a"
  by (cases a) (auto simp: isAssistant_def getProp_def)

lemma findAssistant_find_before:
  "list_all present (takeWhile (\<lambda>m. \<not> isAssistant rt m) msgs) \<Longrightarrow>
   findAssistant rt msgs = Inr (case find (isAssistant rt) msgs of None \<Rightarrow> Undefined | Some a \<Rightarrow> a)"
proof (induction msgs)
  case Nil
  show ?case by simp
next
  case (Cons m ms)
  show ?case
  proof (cases "isAssistant rt m")
    case True
    then show ?thesis by (simp add: isAssistant_def)
  next
    case False
    with Cons.prems have "present m" by simp
    from getProp_present[OF this] obtain x where x: "getProp rt m (js ''role'') = Inr x" by blast
    show ?thesis using Cons False x by (simp add: isAssistant_def)
  qed
qed

lemma getFirst_present: "present v \<Longrightarrow> \<exists>x. getFirst rt v = Inr x"
  using getProp_present[of v rt "js ''0''"]
  by (cases v) (auto simp: getFirst_def present_def split: list.splits)

lemma getPropOpt_total: "\<exists>x. getPropOpt rt v p = Inr x"
  using getProp_present[of v rt p] by (auto simp: getPropOpt_def present_def)

lemma textValue_total: "toBoolean c \<Longrightarrow> \<exists>v. textValue rt c = Inr v"
proof -
  assume "toBoolean c"
  then have "present c" by (rule toBoolean_present)
  from getFirst_present[OF this] obtain f where f: "getFirst rt c = Inr f" by blast
  from getPropOpt_total obtain t where t: "getPropOpt rt f (js ''text'') = Inr t" by blast
  from getPropOpt_total obtain v where "getPropOpt rt t (js ''value'') = Inr v" by blast
  with f t show ?thesis by (simp add: textValue_def)
qed

lemma extractAnswer_none:
  "messageEntries rt md = None \<Longrightarrow> extractAnswer rt md = Returned (Str (noMessagesText rt md))"
proof -
  assume a: "messageEntries rt md = None"
  show ?thesis
  proof (cases "toBoolean md")
    case False
    then show ?thesis by (simp add: extractAnswer_def noMessagesText_def)
  next
    case True
    from getProp_present[OF toBoolean_present[OF True]] obtain d where
      d: "getProp rt md (js ''data'') = Inr d" by blast
    with a True have "\<forall>msgs. d \<noteq> Arr msgs"
      by (auto simp: messageEntries_def split: jsval.splits)
    then show ?thesis using True d
      by (cases d) (auto simp: extractAnswer_def noMessagesText_def split: list.splits)
  qed
qed

lemma extractAnswer_entries:
  assumes "messageEntries rt md = Some msgs"
    and "list_all present (takeWhile (\<lambda>m. \<not> isAssistant rt m) msgs)"
  shows "extractAnswer rt md =
     Returned (case find (isAssistant rt) msgs of
                 None \<Rightarrow> if msgs = [] then Str (noMessagesText rt md) else Str noResponse
               | Some a \<Rightarrow> if toBoolean (textPayload rt a) then textPayload rt a else Str noResponse)"
proof -
  from assms(1) have t: "toBoolean md" and d: "getProp rt md (js ''data'') = Inr (Arr msgs)"
    by (auto simp: messageEntries_def split: if_splits sum.splits jsval.splits)
  show ?thesis
  proof (cases msgs)
    case Nil
    then show ?thesis using t d by (simp add: extractAnswer_def noMessagesText_def)
  next
    case (Cons m ms)
    note f = findAssistant_find_before[OF assms(2)]
    show ?thesis
    proof (cases "find (isAssistant rt) msgs")
      case None
      then show ?thesis using t d Cons f by (simp add: extractAnswer_def)
    next
      case (Some a)
      then have "isAssistant rt a" by (auto simp: find_Some_iff)
      then have ta: "toBoolean a" by (rule isAssistant_truthy)
      from getProp_present[OF toBoolean_present[OF ta]] obtain c where
        c: "getProp rt a (js ''content'') = Inr c" by blast
      show ?thesis
      proof (cases "toBoolean c")
        case False
        then show ?thesis using t d Cons f Some ta c
          by (simp add: extractAnswer_def textPayload_def)
      next
        case True
        from textValue_total[OF True] obtain v where v: "textValue rt c = Inr v" by blast
        then show ?thesis using t d Cons f Some ta c True
          by (simp add: extractAnswer_def textPayload_def)
      qed
    qed
  qed
qed

lemma getProp_absent:
  "\<not> present v \<Longrightarrow> getProp rt v p = Inl (JsError (nullReadMessage rt v p))"
  by (cases v) (simp_all add: present_def getProp_def)

lemma findAssistant_throws:
  "find (\<lambda>m. \<not> present m) (takeWhile (\<lambda>m. \<not> isAssistant rt m) msgs) = Some bad \<Longrightarrow>
   findAssistant rt msgs = Inl (JsError (nullReadMessage rt bad (js ''role'')))"
proof (induction msgs)
  case Nil
  then show ?case by simp
next
  case (Cons m ms)
  show ?case
  proof (cases "isAssistant rt m")
    case True
    with Cons.prems show ?thesis by simp
  next
    case False
    show ?thesis
    proof (cases "present m")
      case True
      from getProp_present[OF this] obtain x where x: "getProp rt m (js ''role'') = Inr x" by blast
      from Cons.prems False True
      have "find (\<lambda>m. \<not> present m) (takeWhile (\<lambda>m. \<not> isAssistant rt m) ms) = Some bad"
        by simp
      from Cons.IH[OF this] False x show ?thesis by (simp add: isAssistant_def)
    next
      case absent: False
      with Cons.prems False have "bad = m" by simp
      with getProp_absent[OF absent, of rt "js ''role''"] show ?thesis by simp
    qed
  qed
qed

lemma extractAnswer_throws:
  assumes "messageEntries rt md = Some msgs"
    and "find (\<lambda>m. \<not> present m) (takeWhile (\<lambda>m. \<not> isAssistant rt m) msgs) = Some bad"
  shows "extractAnswer rt md = Thrown (JsError (nullReadMessage rt bad (js ''role'')))"
proof -
  from assms(1) have t: "toBoolean md" and d: "getProp rt md (js ''data'') = Inr (Arr msgs)"
    by (auto simp: messageEntries_def split: if_splits sum.splits jsval.splits)
  from assms(2) obtain m ms where c: "msgs = m # ms" by (cases msgs) auto
  from findAssistant_throws[OF assms(2)] t d c show ?thesis
    by (simp add: extractAnswer_def del: findAssistant.simps)
qed

lemma extractAnswer_empty:
  "messageEntries rt md = Some [] \<Longrightarrow> extractAnswer rt md = Returned (Str (noMessagesText rt md))"
  by (auto simp: messageEntries_def extractAnswer_def noMessagesText_def
      split: if_splits sum.splits jsval.splits)

lemma create_answer:
  assumes "threadOf rt (net 0) = Some tid" and "accepted (net 1)"
    and "runOf rt (net 2) = Some (runId, st)"
    and "toStr rt runId = Inr rid" and "reaches rt net st m (Str (js ''completed''))"
    and "net (3 + m) = Response status (Inr md)" and "ok status"
  shows "createThreadWithMessage rt net userInput =
     Some (catchAll (extractAnswer rt md),
           openingCalls rt tid userInput @ pollRounds tid rid m @ [Fetch (getMessagesRequest tid)])"
proof -
  have "Str (js ''completed'') \<noteq> Str (js ''failed'')" by (simp add: js_def)
  moreover have "fetchJson net (3 + m) = Inr (status, md)"
    using assms(6) by (simp add: fetchJson_def)
  ultimately have "fst (fetchAnswer rt net tid (3 + m) (Str (js ''completed''))
                       (openingCalls rt tid userInput @ pollRounds tid rid m)) = extractAnswer rt md"
    using assms(7) by (simp add: fetchAnswer_def)
  with create_completed[where net=net and userInput=userInput, OF assms(1-5)] show ?thesis
    by simp
qed

text \<open>
  C8, as stated: once the run is completed, the first assistant entry of the fetched list
  gives the answer, and a list without such an entry gives an empty-response text. It
  fails for a list that holds \<^verbatim>\<open>null\<close>: the list has no assistant entry, yet reading the
  role of the \<^verbatim>\<open>null\<close> entry throws and the text of the \<^verbatim>\<open>catch\<close> clause comes back.
\<close>

theorem null_entry_counterexample:
  "messageEntries demoRuntime (Obj [(js ''data'', Arr [Null])]) = Some [Null]
   \<and> find (isAssistant demoRuntime) [Null] = None
   \<and> createThreadWithMessage demoRuntime nullEntry (js ''Is talc safe?'') =
       Some (Returned (Str (js ''An error occurred while processing your request: Cannot read properties of null (reading 'role')'')),
             openingCalls demoRuntime (js ''id_0'') (js ''Is talc safe?'')
             @ pollRounds (js ''id_0'') (js ''id_2'') 2 @ [Fetch (getMessagesRequest (js ''id_0''))])
   \<and> \<not> emptyResponse demoRuntime (Obj [(js ''data'', Arr [Null])])
         (Str (js ''An error occurred while processing your request: Cannot read properties of null (reading 'role')''))"
proof -
  let ?q = "js ''Is talc safe?''"
  have h: "threadOf demoRuntime (nullEntry 0) = Some (js ''id_0'')" "accepted (nullEntry 1)"
    "runOf demoRuntime (nullEntry 2) = Some (Str (js ''id_2''), Str (js ''queued''))"
    "toStr demoRuntime (Str (js ''id_2'')) = Inr (js ''id_2'')"
    "reaches demoRuntime nullEntry (Str (js ''queued'')) 2 (Str (js ''completed''))"
    "nullEntry (3 + 2) = Response 200 (Inr (Obj [(js ''data'', Arr [Null])]))" "ok 200"
    by code_simp+
  have e: "catchAll (extractAnswer demoRuntime (Obj [(js ''data'', Arr [Null])])) =
      Returned (Str (js ''An error occurred while processing your request: Cannot read properties of null (reading 'role')''))"
    by code_simp
  have c: "createThreadWithMessage demoRuntime nullEntry ?q =
       Some (Returned (Str (js ''An error occurred while processing your request: Cannot read properties of null (reading 'role')'')),
             openingCalls demoRuntime (js ''id_0'') ?q
             @ pollRounds (js ''id_0'') (js ''id_2'') 2 @ [Fetch (getMessagesRequest (js ''id_0''))])"
    using create_answer[where net=nullEntry and userInput="?q", OF h] unfolding e .
  have g: "messageEntries demoRuntime (Obj [(js ''data'', Arr [Null])]) = Some [Null]"
    "find (isAssistant demoRuntime) [Null] = None"
    "\<not> emptyResponse demoRuntime (Obj [(js ''data'', Arr [Null])])
         (Str (js ''An error occurred while processing your request: Cannot read properties of null (reading 'role')''))"
    by code_simp+
  from g c show ?thesis by simp
qed

text \<open>
  C8, amended. Once the run is completed, createThreadWithMessage fetches the list of
  messages, takes the first entry whose role is \<^verbatim>\<open>assistant\<close> and returns its text payload
  \<^verbatim>\<open>content[0].text.value\<close> when that is truthy. When the list has no such entry, or the
  payload of that entry is missing or falsy, it returns "No response from assistant."; when
  the body holds no list of messages or an empty one, it returns "No messages found or the
  response structure is unexpected." with the body. All this holds when the entries in
  front of the first assistant entry are present. When one of them is \<^verbatim>\<open>null\<close> or
  \<^verbatim>\<open>undefined\<close>, reading its role throws, and what comes back is the text of the \<^verbatim>\<open>catch\<close>
  clause with the message of that error.
\<close>

theorem assistant_text_returned:
  "threadOf rt (net 0) = Some threadId \<Longrightarrow> accepted (net 1) \<Longrightarrow>
   runOf rt (net 2) = Some (runId, runStatus) \<Longrightarrow> toStr rt runId = Inr rid \<Longrightarrow>
   reaches rt net runStatus m (Str (js ''completed'')) \<Longrightarrow>
   net (3 + m) = Response status (Inr messagesData) \<Longrightarrow> ok status \<Longrightarrow>
   trace = openingCalls rt threadId userInput @ pollRounds threadId rid m
           @ [Fetch (getMessagesRequest threadId)] \<Longrightarrow>
     (messageEntries rt messagesData = Some msgs
        \<and> list_all present (takeWhile (\<lambda>m. \<not> isAssistant rt m) msgs)
        \<and> find (isAssistant rt) msgs = Some a \<and> toBoolean (textPayload rt a) \<longrightarrow>
      createThreadWithMessage rt net userInput = Some (Returned (textPayload rt a), trace))
   \<and> (messageEntries rt messagesData = Some msgs \<and> msgs \<noteq> []
        \<and> list_all present (takeWhile (\<lambda>m. \<not> isAssistant rt m) msgs)
        \<and> (find (isAssistant rt) msgs = None
            \<or> (find (isAssistant rt) msgs = Some a \<and> \<not> toBoolean (textPayload rt a))) \<longrightarrow>
      createThreadWithMessage rt net userInput =
        Some (Returned (Str (js ''No response from assistant.'')), trace))
   \<and> (messageEntries rt messagesData = None \<or> messageEntries rt messagesData = Some [] \<longrightarrow>
      createThreadWithMessage rt net userInput =
        Some (Returned (Str (js ''No messages found or the response structure is unexpected. ''
                             @ stringify rt messagesData)), trace))
   \<and> (messageEntries rt messagesData = Some msgs
        \<and> find (\<lambda>m. \<not> present m) (takeWhile (\<lambda>m. \<not> isAssistant rt m) msgs) = Some bad \<longrightarrow>
      createThreadWithMessage rt net userInput =
        Some (Returned (Str (js ''An error occurred while processing your request: ''
                             @ nullReadMessage rt bad (js ''role''))), trace))"
proof -
  assume a: "threadOf rt (net 0) = Some threadId" "accepted (net 1)"
    "runOf rt (net 2) = Some (runId, runStatus)" "toStr rt runId = Inr rid"
    "reaches rt net runStatus m (Str (js ''completed''))"
    "net (3 + m) = Response status (Inr messagesData)" "ok status"
    and tr: "trace = openingCalls rt threadId userInput @ pollRounds threadId rid m
           @ [Fetch (getMessagesRequest threadId)]"
  have c: "createThreadWithMessage rt net userInput =
      Some (catchAll (extractAnswer rt messagesData), trace)"
    unfolding tr using a by (rule create_answer)
  have 1: "createThreadWithMessage rt net userInput = Some (Returned (textPayload rt a), trace)"
    if "messageEntries rt messagesData = Some msgs"
      "list_all present (takeWhile (\<lambda>m. \<not> isAssistant rt m) msgs)"
      "find (isAssistant rt) msgs = Some a" "toBoolean (textPayload rt a)"
    using that c extractAnswer_entries[of rt messagesData msgs] by simp
  have 2: "createThreadWithMessage rt net userInput =
        Some (Returned (Str (js ''No response from assistant.'')), trace)"
    if "messageEntries rt messagesData = Some msgs" "msgs \<noteq> []"
      "list_all present (takeWhile (\<lambda>m. \<not> isAssistant rt m) msgs)"
      "find (isAssistant rt) msgs = None
            \<or> (find (isAssistant rt) msgs = Some a \<and> \<not> toBoolean (textPayload rt a))"
    using that c extractAnswer_entries[of rt messagesData msgs]
    by (auto simp: noResponse_def)
  have 3: "createThreadWithMessage rt net userInput =
        Some (Returned (Str (js ''No messages found or the response structure is unexpected. ''
                             @ stringify rt messagesData)), trace)"
    if "messageEntries rt messagesData = None \<or> messageEntries rt messagesData = Some []"
    using that c extractAnswer_none[of rt messagesData] extractAnswer_empty[of rt messagesData]
    by (auto simp: noMessagesText_def)
  have 4: "createThreadWithMessage rt net userInput =
        Some (Returned (Str (js ''An error occurred while processing your request: ''
                             @ nullReadMessage rt bad (js ''role''))), trace)"
    if "messageEntries rt messagesData = Some msgs"
      "find (\<lambda>m. \<not> present m) (takeWhile (\<lambda>m. \<not> isAssistant rt m) msgs) = Some bad"
    using c extractAnswer_throws[OF that] by simp
  from 1 2 3 4 show ?thesis by blast
qed

theorem assistant_text_returned_witness:
  "threadOf demoRuntime (happy 0) = Some (js ''id_0'') \<and> accepted (happy 1)
   \<and> runOf demoRuntime (happy 2) = Some (Str (js ''id_2''), Str (js ''queued''))
   \<and> toStr demoRuntime (Str (js ''id_2'')) = Inr (js ''id_2'')
   \<and> reaches demoRuntime happy (Str (js ''queued'')) 2 (Str (js ''completed''))
   \<and> happy (3 + 2) = Response 200 (Inr (messagesBody (Str (js ''Hello'')))) \<and> ok 200
   \<and> messageEntries demoRuntime (messagesBody (Str (js ''Hello'')))
       = Some [userEntry, assistantEntry (Str (js ''Hello''))]
   \<and> list_all present (takeWhile (\<lambda>m. \<not> isAssistant demoRuntime m)
         [userEntry, assistantEntry (Str (js ''Hello''))])
   \<and> find (isAssistant demoRuntime) [userEntry, assistantEntry (Str (js ''Hello''))]
       = Some (assistantEntry (Str (js ''Hello'')))
   \<and> textPayload demoRuntime (assistantEntry (Str (js ''Hello''))) = Str (js ''Hello'')
   \<and> createThreadWithMessage demoRuntime happy (js ''Is talc safe?'')
       = Some (Returned (Str (js ''Hello'')),
               openingCalls demoRuntime (js ''id_0'') (js ''Is talc safe?'')
               @ pollRounds (js ''id_0'') (js ''id_2'') 2 @ [Fetch (getMessagesRequest (js ''id_0''))])
   \<and> messageEntries demoRuntime (Obj [(js ''data'', Arr [userEntry])]) = Some [userEntry]
   \<and> find (isAssistant demoRuntime) [userEntry] = None
   \<and> createThreadWithMessage demoRuntime
         (happy(5 := Response 200 (Inr (Obj [(js ''data'', Arr [userEntry])])))) (js ''Is talc safe?'')
       = Some (Returned (Str (js ''No response from assistant.'')),
               openingCalls demoRuntime (js ''id_0'') (js ''Is talc safe?'')
               @ pollRounds (js ''id_0'') (js ''id_2'') 2 @ [Fetch (getMessagesRequest (js ''id_0''))])
   \<and> messageEntries demoRuntime (Obj [(js ''data'', Arr [])]) = Some []
   \<and> createThreadWithMessage demoRuntime
         (happy(5 := Response 200 (Inr (Obj [(js ''data'', Arr [])])))) (js ''Is talc safe?'')
       = Some (Returned (Str (js ''No messages found or the response structure is unexpected. ''
                              @ js ''{'' @ jsonQuote (js ''data'') @ js '':[]}'')),
               openingCalls demoRuntime (js ''id_0'') (js ''Is talc safe?'')
               @ pollRounds (js ''id_0'') (js ''id_2'') 2 @ [Fetch (getMessagesRequest (js ''id_0''))])
   \<and> messageEntries demoRuntime (Obj [(js ''data'', Arr [userEntry, Null, assistantEntry (Str (js ''Hello''))])])
       = Some [userEntry, Null, assistantEntry (Str (js ''Hello''))]
   \<and> find (\<lambda>m. \<not> present m) (takeWhile (\<lambda>m. \<not> isAssistant demoRuntime m)
         [userEntry, Null, assistantEntry (Str (js ''Hello''))]) = Some Null
   \<and> createThreadWithMessage demoRuntime
         (happy(5 := Response 200
            (Inr (Obj [(js ''data'', Arr [userEntry, Null, assistantEntry (Str (js ''Hello''))])]))))
         (js ''Is talc safe?'')
       = Some (Returned (Str (js ''An error occurred while processing your request: Cannot read properties of null (reading 'role')'')),
               openingCalls demoRuntime (js ''id_0'') (js ''Is talc safe?'')
               @ pollRounds (js ''id_0'') (js ''id_2'') 2 @ [Fetch (getMessagesRequest (js ''id_0''))])"
proof -
  let ?q = "js ''Is talc safe?''"
  let ?a = "assistantEntry (Str (js ''Hello''))"
  let ?bu = "Obj [(js ''data'', Arr [userEntry])]"
  let ?be = "Obj [(js ''data'', Arr [])]"
  let ?bn = "Obj [(js ''data'', Arr [userEntry, Null, ?a])]"
  let ?nu = "happy(5 := Response 200 (Inr ?bu))"
  let ?ne = "happy(5 := Response 200 (Inr ?be))"
  let ?nn = "happy(5 := Response 200 (Inr ?bn))"
  let ?tr = "openingCalls demoRuntime (js ''id_0'') ?q
               @ pollRounds (js ''id_0'') (js ''id_2'') 2 @ [Fetch (getMessagesRequest (js ''id_0''))]"
  note T = assistant_text_returned
  have h: "threadOf demoRuntime (happy 0) = Some (js ''id_0'')" "accepted (happy 1)"
    "runOf demoRuntime (happy 2) = Some (Str (js ''id_2''), Str (js ''queued''))"
    "toStr demoRuntime (Str (js ''id_2'')) = Inr (js ''id_2'')"
    "reaches demoRuntime happy (Str (js ''queued'')) 2 (Str (js ''completed''))"
    "happy (3 + 2) = Response 200 (Inr (messagesBody (Str (js ''Hello''))))" "ok 200"
    by code_simp+
  have g: "messageEntries demoRuntime (messagesBody (Str (js ''Hello''))) = Some [userEntry, ?a]"
    "list_all present (takeWhile (\<lambda>m. \<not> isAssistant demoRuntime m) [userEntry, ?a])"
    "find (isAssistant demoRuntime) [userEntry, ?a] = Some ?a"
    "textPayload demoRuntime ?a = Str (js ''Hello'')"
    by code_simp+
  have t: "toBoolean (textPayload demoRuntime ?a)" unfolding g(4) by code_simp
  from T[OF h refl, where msgs="[userEntry, ?a]" and a="?a" and userInput="?q", THEN conjunct1]
    g(1,2,3) t
  have 1: "createThreadWithMessage demoRuntime happy ?q = Some (Returned (Str (js ''Hello'')), ?tr)"
    unfolding g(4) by blast
  have hu: "threadOf demoRuntime (?nu 0) = Some (js ''id_0'')" "accepted (?nu 1)"
    "runOf demoRuntime (?nu 2) = Some (Str (js ''id_2''), Str (js ''queued''))"
    "toStr demoRuntime (Str (js ''id_2'')) = Inr (js ''id_2'')"
    "reaches demoRuntime ?nu (Str (js ''queued'')) 2 (Str (js ''completed''))"
    "?nu (3 + 2) = Response 200 (Inr ?bu)" "ok 200"
    by code_simp+
  have gu: "messageEntries demoRuntime ?bu = Some [userEntry]" "[userEntry] \<noteq> []"
    "list_all present (takeWhile (\<lambda>m. \<not> isAssistant demoRuntime m) [userEntry])"
    "find (isAssistant demoRuntime) [userEntry] = None"
    by code_simp+
  from T[OF hu refl, where msgs="[userEntry]" and userInput="?q", THEN conjunct2, THEN conjunct1]
    gu
  have 2: "createThreadWithMessage demoRuntime ?nu ?q =
      Some (Returned (Str (js ''No response from assistant.'')), ?tr)"
    by blast
  have he: "threadOf demoRuntime (?ne 0) = Some (js ''id_0'')" "accepted (?ne 1)"
    "runOf demoRuntime (?ne 2) = Some (Str (js ''id_2''), Str (js ''queued''))"
    "toStr demoRuntime (Str (js ''id_2'')) = Inr (js ''id_2'')"
    "reaches demoRuntime ?ne (Str (js ''queued'')) 2 (Str (js ''completed''))"
    "?ne (3 + 2) = Response 200 (Inr ?be)" "ok 200"
    by code_simp+
  have ge: "messageEntries demoRuntime ?be = Some []"
    "stringify demoRuntime ?be = js ''{'' @ jsonQuote (js ''data'') @ js '':[]}''"
    by code_simp+
  from T[OF he refl, where userInput="?q", THEN conjunct2, THEN conjunct2, THEN conjunct1] ge(1)
  have 3: "createThreadWithMessage demoRuntime ?ne ?q =
      Some (Returned (Str (js ''No messages found or the response structure is unexpected. ''
                              @ js ''{'' @ jsonQuote (js ''data'') @ js '':[]}'')), ?tr)"
    unfolding ge(2) by blast
  have hn: "threadOf demoRuntime (?nn 0) = Some (js ''id_0'')" "accepted (?nn 1)"
    "runOf demoRuntime (?nn 2) = Some (Str (js ''id_2''), Str (js ''queued''))"
    "toStr demoRuntime (Str (js ''id_2'')) = Inr (js ''id_2'')"
    "reaches demoRuntime ?nn (Str (js ''queued'')) 2 (Str (js ''completed''))"
    "?nn (3 + 2) = Response 200 (Inr ?bn)" "ok 200"
    by code_simp+
  have gn: "messageEntries demoRuntime ?bn = Some [userEntry, Null, ?a]"
    "find (\<lambda>m. \<not> present m) (takeWhile (\<lambda>m. \<not> isAssistant demoRuntime m)
         [userEntry, Null, ?a]) = Some Null"
    by code_simp+
  have tn: "js ''An error occurred while processing your request: ''
        @ nullReadMessage demoRuntime Null (js ''role'')
      = js ''An error occurred while processing your request: Cannot read properties of null (reading 'role')''"
    by code_simp
  from T[OF hn refl, where msgs="[userEntry, Null, ?a]" and bad=Null and userInput="?q",
      THEN conjunct2, THEN conjunct2, THEN conjunct2] gn
  have 4: "createThreadWithMessage demoRuntime ?nn ?q =
      Some (Returned (Str (js ''An error occurred while processing your request: Cannot read properties of null (reading 'role')'')), ?tr)"
    unfolding tn by blast
  show ?thesis
    by (intro conjI) (rule h g 1 gu(1,4) 2 ge(1) 3 gn 4)+
qed

section \<open>What createThreadWithMessage returns\<close>

lemma isString_Str: "isString (Str s)"
  by (simp add: isString_def)






















end
